theory Spec2Isabelle
  imports Main "HOL-Library.Sublist"
begin

section \<open>Strings and the conflict regular expression\<close>

text \<open>
  The script \<^verbatim>\<open>scripts/resolve-conflicts-with-gemini.js\<close> works on JavaScript strings.
  A string is modelled as a \<^typ>\<open>string\<close>; one \<^typ>\<open>char\<close> stands for one code unit
  (the regular expression has no \<^verbatim>\<open>u\<close> flag, so it matches code unit by code unit, and it
  only tells \<^verbatim>\<open><\<close>, \<^verbatim>\<open>=\<close>, \<^verbatim>\<open>>\<close> and the line feed from the rest).
\<close>

definition NL :: char where
  "NL = CHR 0x0A"

definition ours_marker :: string where
  "ours_marker = ''<<<<<<<''"

definition separator :: string where
  "separator = NL # ''======='' @ [NL]"

definition theirs_marker :: string where
  "theirs_marker = NL # ''>>>>>>>''"

text \<open>
  \<open>first_occurrence pat s\<close> is the least \<open>k\<close> such that \<open>pat\<close> stands at offset \<open>k\<close> of
  \<open>s\<close>. It is what a lazy \<^verbatim>\<open>[\s\S]*?\<close> followed by the literal \<open>pat\<close> finds: the
  backtracking matcher tries the lengths 0, 1, 2, ... in this order.
\<close>

fun first_occurrence :: "string \<Rightarrow> string \<Rightarrow> nat option" where
  "first_occurrence pat [] = (if pat = [] then Some 0 else None)"
| "first_occurrence pat (c # cs) =
     (if prefix pat (c # cs) then Some 0
      else map_option Suc (first_occurrence pat cs))"

text \<open>
  One attempt of
  \<^verbatim>\<open>/<<<<<<<[^\n]*\n([\s\S]*?)\n=======\n([\s\S]*?)\n>>>>>>>[^\n]*/\<close>
  at the start of \<open>s\<close>. The result is the length of the match and the two groups.
  \<^item> \<^verbatim>\<open><<<<<<<\<close> is a literal;
  \<^item> the greedy \<^verbatim>\<open>[^\n]*\<close> takes the rest of the line, and the \<^verbatim>\<open>\n\<close> after it can
    only match there (giving characters back leaves a character that is no line feed);
  \<^item> group 1 is lazy: it ends at the first \<^verbatim>\<open>\n=======\n\<close>. A later separator is
    tried only when the rest fails, and the rest fails after a later separator too;
  \<^item> group 2 is lazy: it ends at the first \<^verbatim>\<open>\n>>>>>>>\<close> after the separator;
  \<^item> the last greedy \<^verbatim>\<open>[^\n]*\<close> takes the rest of that line.
\<close>

definition exec_at :: "string \<Rightarrow> (nat \<times> string \<times> string) option" where
  "exec_at s =
     (if \<not> prefix ours_marker s then None
      else
        let r0 = drop 7 s;
            label = takeWhile (\<lambda>c. c \<noteq> NL) r0
        in case drop (length label) r0 of
             [] \<Rightarrow> None
           | _ # r2 \<Rightarrow>
             (case first_occurrence separator r2 of
                None \<Rightarrow> None
              | Some k \<Rightarrow>
                let r3 = drop (k + 9) r2 in
                (case first_occurrence theirs_marker r3 of
                   None \<Rightarrow> None
                 | Some m \<Rightarrow>
                   let r4 = drop (m + 8) r3;
                       label2 = takeWhile (\<lambda>c. c \<noteq> NL) r4
                   in Some (7 + length label + 1 + k + 9 + m + 8 + length label2,
                            take k r2, take m r3))))"

text \<open>
  The strings the regular expression denotes, whatever the order in which a matcher
  tries them: the marker \<^verbatim>\<open><<<<<<<\<close>, a label without a line feed, a line feed, any
  text, the separator between two line feeds, any text, a line feed and the marker
  \<^verbatim>\<open>>>>>>>>\<close>, and a label without a line feed. A content holds a conflict block when
  one of its substrings is such a string.
\<close>

definition conflict_block :: "string \<Rightarrow> bool" where
  "conflict_block b =
     (\<exists>label our their label2.
        b = ours_marker @ label @ [NL] @ our @ separator @ their @ theirs_marker @ label2
        \<and> NL \<notin> set label \<and> NL \<notin> set label2)"

definition contains_conflict_block :: "string \<Rightarrow> bool" where
  "contains_conflict_block content =
     (\<exists>pre b post. content = pre @ b @ post \<and> conflict_block b)"

text \<open>
  The shape of a successful attempt: the header line, the two variants, each ending at
  the first separator and the first closing marker, the closing label, and a rest that
  is empty or starts a new line.
\<close>

definition matched_shape ::
  "string \<Rightarrow> string \<Rightarrow> string \<Rightarrow> string \<Rightarrow> string \<Rightarrow> bool" where
  "matched_shape label g1 g2 label2 rest =
     (NL \<notin> set label \<and> NL \<notin> set label2 \<and> (rest = [] \<or> hd rest = NL)
      \<and> first_occurrence separator (g1 @ separator) = Some (length g1)
      \<and> first_occurrence theirs_marker (g2 @ theirs_marker) = Some (length g2))"

text \<open>
  A match object of \<^verbatim>\<open>content.matchAll(conflictRegex)\<close>: \<^verbatim>\<open>match.index\<close>,
  \<^verbatim>\<open>match[0]\<close>, \<^verbatim>\<open>match[1]\<close> and \<^verbatim>\<open>match[2]\<close>, under the names
  \<^verbatim>\<open>resolveConflictsInFile\<close> gives them.
\<close>

record regexp_match =
  index :: nat
  fullConflictBlock :: string
  ourCode :: string
  theirCode :: string

text \<open>
  The global scan: \<open>scan off s\<close> searches the rest \<open>s\<close> of the content, which starts at
  offset \<open>off\<close>. A failed attempt moves one code unit on; a match moves \<^verbatim>\<open>lastIndex\<close>
  to its end (a match is never empty).
\<close>

function scan :: "nat \<Rightarrow> string \<Rightarrow> regexp_match list" where
  "scan off [] = []"
| "scan off (c # cs) =
     (case exec_at (c # cs) of
        None \<Rightarrow> scan (Suc off) cs
      | Some (len, g1, g2) \<Rightarrow>
          \<lparr>index = off, fullConflictBlock = take len (c # cs),
           ourCode = g1, theirCode = g2\<rparr>
          # scan (off + len) (drop len (c # cs)))"
  by pat_completeness auto

lemma exec_at_length_pos:
  "exec_at s = Some (len, g1, g2) \<Longrightarrow> 0 < len"
  by (auto simp: exec_at_def Let_def split: if_splits list.splits option.splits)

termination scan
  by (relation "measure (\<lambda>(off, s). length s)")
     (auto dest: exec_at_length_pos)

definition matchAll :: "string \<Rightarrow> regexp_match list" where
  "matchAll content = scan 0 content"

text \<open>
  Line 159: \<^verbatim>\<open>content.substring(0, match.index) + resolvedCode +
  content.substring(match.index + fullConflictBlock.length)\<close>.
\<close>

definition splice :: "string \<Rightarrow> regexp_match \<Rightarrow> string \<Rightarrow> string" where
  "splice content m resolvedCode =
     take (index m) content @ resolvedCode
     @ drop (index m + length (fullConflictBlock m)) content"

section \<open>The resolver call\<close>

text \<open>
  A value of the parsed response: what \<^verbatim>\<open>JSON.parse\<close> returns. An object is the list
  of its own properties, each key once. \<^verbatim>\<open>undefined\<close> is no JSON value; it arises from
  reading a property that is not there.
\<close>

datatype json =
  JNull | JBool bool | JNum int | JStr string | JArr "json list"
  | JObj "(string \<times> json) list"

datatype js_value = Undefined | Value json

text \<open>
  The property read \<open>v.name\<close> or \<open>v[0]\<close>, for the names line 126 reads
  (\<^verbatim>\<open>candidates\<close>, \<^verbatim>\<open>content\<close>, \<^verbatim>\<open>parts\<close>, \<^verbatim>\<open>text\<close> and \<^verbatim>\<open>0\<close>).
  \<open>None\<close> is the TypeError of reading a property of \<^verbatim>\<open>undefined\<close> or
  \<^verbatim>\<open>null\<close>. An array and a string have an element 0 when they are not empty;
  a number or a boolean has none of these properties.
\<close>

fun get_property :: "js_value \<Rightarrow> string \<Rightarrow> js_value option" where
  "get_property Undefined name = None"
| "get_property (Value JNull) name = None"
| "get_property (Value (JObj kvs)) name =
     Some (case map_of kvs name of None \<Rightarrow> Undefined | Some v \<Rightarrow> Value v)"
| "get_property (Value (JArr xs)) name =
     Some (if name = ''0'' then (case xs of [] \<Rightarrow> Undefined | x # _ \<Rightarrow> Value x)
           else Undefined)"
| "get_property (Value (JStr s)) name =
     Some (if name = ''0'' then (case s of [] \<Rightarrow> Undefined | c # _ \<Rightarrow> Value (JStr [c]))
           else Undefined)"
| "get_property (Value (JBool b)) name = Some Undefined"
| "get_property (Value (JNum n)) name = Some Undefined"

text \<open>
  \<^verbatim>\<open>String.prototype.trim\<close> removes white space and line terminators from both ends.
  Among the code units below 256 these are tab, line feed, vertical tab, form feed,
  carriage return, space and the no-break space.
\<close>

definition is_white_space :: "char \<Rightarrow> bool" where
  "is_white_space c =
     (c \<in> set [CHR 0x09, CHR 0x0A, CHR 0x0B, CHR 0x0C, CHR 0x0D, CHR 0x20, CHR 0xA0])"

definition trim :: "string \<Rightarrow> string" where
  "trim s = rev (dropWhile is_white_space (rev (dropWhile is_white_space s)))"

text \<open>
  \<open>v.trim()\<close>: only a string has a callable \<^verbatim>\<open>trim\<close>; on anything else the call is
  a TypeError (\<open>None\<close>).
\<close>

fun call_trim :: "js_value \<Rightarrow> string option" where
  "call_trim (Value (JStr s)) = Some (trim s)"
| "call_trim _ = None"

text \<open>
  Line 126: \<^verbatim>\<open>response.candidates[0].content.parts[0].text.trim()\<close>, first the chain
  of property reads, then the call of \<^verbatim>\<open>trim\<close> on what they give.
\<close>

definition text_field :: "js_value \<Rightarrow> js_value option" where
  "text_field response =
     Option.bind (get_property response ''candidates'') (\<lambda>candidates.
     Option.bind (get_property candidates ''0'') (\<lambda>candidate.
     Option.bind (get_property candidate ''content'') (\<lambda>content.
     Option.bind (get_property content ''parts'') (\<lambda>parts.
     Option.bind (get_property parts ''0'') (\<lambda>part.
     get_property part ''text'')))))"

definition extract_text :: "js_value \<Rightarrow> string option" where
  "extract_text response = Option.bind (text_field response) call_trim"

text \<open>
  What one HTTPS request comes to: the request's \<^verbatim>\<open>error\<close> event; the response's
  \<^verbatim>\<open>end\<close> event with the status code, the body, and what \<^verbatim>\<open>JSON.parse\<close> makes of the
  body (\<open>None\<close> when it throws a SyntaxError); or a response that is cut off: its
  status line and headers arrive, and the connection is closed before the body has ended.
  Lines 62 to 77 listen to \<^verbatim>\<open>data\<close> and \<^verbatim>\<open>end\<close> of the response and to \<^verbatim>\<open>error\<close> of the
  request only, and they set no timeout: a response that is cut off calls none of the
  listeners. (Every connection is taken to be closed at some time.)
\<close>

datatype response_event =
  Request_error string
  | Response_end nat string "json option"
  | Response_cut nat

datatype failure_detail = Transport string | Status nat string

text \<open>
  The errors of the script. \<open>NETWORK\<close> is the error \<^verbatim>\<open>callGeminiAPI\<close> throws after its
  last attempt, \<open>MALFORMED_RESPONSE\<close> the error of line 129, \<open>STAT_FAILED\<close> and
  \<open>READ_FAILED\<close> a rejected \<^verbatim>\<open>fs.stat\<close> and \<^verbatim>\<open>fs.readFile\<close>, \<open>COMMAND_FAILED\<close> the
  error \<^verbatim>\<open>runCommand\<close> rethrows. \<open>UNCAUGHT_SYNTAX_ERROR\<close> is the SyntaxError that
  \<^verbatim>\<open>JSON.parse\<close> throws inside the \<^verbatim>\<open>end\<close> listener of line 66: no promise is
  rejected by it, no \<^verbatim>\<open>catch\<close> sees it, and the process ends with it.
\<close>

datatype error =
  NETWORK failure_detail
  | MALFORMED_RESPONSE
  | STAT_FAILED string
  | READ_FAILED string
  | COMMAND_FAILED string
  | UNCAUGHT_SYNTAX_ERROR

text \<open>
  How a call leaves the script without a value: an error is thrown, or the promise of an
  attempt is never settled. In the second case nothing is left to run, and the process
  ends with exit code 0 where it stands.
\<close>

datatype abort = Thrown error | Never_settled

datatype attempt_outcome =
  Resolved json | Rejected failure_detail | Thrown_in_listener | Unsettled

text \<open>Lines 62 to 77: the promise of one attempt.\<close>

fun attempt_outcome_of :: "response_event \<Rightarrow> attempt_outcome" where
  "attempt_outcome_of (Request_error msg) = Rejected (Transport msg)"
| "attempt_outcome_of (Response_end status data parsed) =
     (if 200 \<le> status \<and> status < 300 then
        (case parsed of None \<Rightarrow> Thrown_in_listener | Some j \<Rightarrow> Resolved j)
      else Rejected (Status status data))"
| "attempt_outcome_of (Response_cut status) = Unsettled"

section \<open>The world of a run\<close>

datatype node = Directory | File string

text \<open>
  The state a run changes: the file system, the number of HTTPS requests made so far,
  the waits of \<^verbatim>\<open>setTimeout\<close> in milliseconds, the calls of \<^verbatim>\<open>fs.writeFile\<close>, the
  paths given to \<^verbatim>\<open>git add\<close>, and the paths warned about as submodules, each in order.
\<close>

record world =
  files :: "string \<Rightarrow> node option"
  requests :: nat
  delays :: "nat list"
  writes :: "(string \<times> string) list"
  stage_calls :: "string list"
  submodule_warnings :: "string list"

text \<open>
  What a run does not change: the API key of the environment, the service (its answer
  to the \<open>n\<close>-th request of the run, given the prompt sent), and whether
  \<^verbatim>\<open>git add\<close> of a path succeeds.
\<close>

record env =
  GEMINI_API_KEY :: "string option"
  api :: "nat \<Rightarrow> string \<Rightarrow> response_event"
  git_add_ok :: "string \<Rightarrow> bool"

definition MAX_RETRIES :: nat where
  "MAX_RETRIES = 3"

text \<open>
  Lines 60 to 83, the loop of \<^verbatim>\<open>callGeminiAPI\<close> from attempt \<open>i\<close> on. A rejected
  attempt is thrown on when \<open>i = MAX_RETRIES - 1\<close>; before that the loop waits
  \<open>1000 * 2 ^ i\<close> milliseconds. A function that leaves the loop returns
  \<^verbatim>\<open>undefined\<close>.
\<close>

function callGeminiAPI_from ::
  "env \<Rightarrow> string \<Rightarrow> nat \<Rightarrow> world \<Rightarrow> (abort + js_value) \<times> world" where
  "callGeminiAPI_from e payload i w =
     (if i < MAX_RETRIES then
        let w1 = w\<lparr>requests := Suc (requests w)\<rparr> in
        (case attempt_outcome_of (api e (requests w) payload) of
           Resolved j \<Rightarrow> (Inr (Value j), w1)
         | Thrown_in_listener \<Rightarrow> (Inl (Thrown UNCAUGHT_SYNTAX_ERROR), w1)
         | Unsettled \<Rightarrow> (Inl Never_settled, w1)
         | Rejected d \<Rightarrow>
             if i = MAX_RETRIES - 1 then (Inl (Thrown (NETWORK d)), w1)
             else callGeminiAPI_from e payload (Suc i)
                    (w1\<lparr>delays := delays w1 @ [1000 * 2 ^ i]\<rparr>))
      else (Inr Undefined, w))"
  by pat_completeness auto
termination
  by (relation "measure (\<lambda>(e, payload, i, w). MAX_RETRIES - i)") auto

declare callGeminiAPI_from.simps [simp del]

definition callGeminiAPI :: "env \<Rightarrow> string \<Rightarrow> world \<Rightarrow> (abort + js_value) \<times> world" where
  "callGeminiAPI e payload w = callGeminiAPI_from e payload 0 w"

text \<open>Lines 96 to 112: the prompt, the only part of the payload that varies.\<close>

definition prompt :: "string \<Rightarrow> string \<Rightarrow> string \<Rightarrow> string" where
  "prompt our their filePath =
     [NL] @ ''You are an expert software developer specializing in resolving Git conflicts.''
     @ [NL] @ ''Analyze the two conflicting code blocks below from the file ''
     @ [CHR 0x22] @ filePath @ [CHR 0x22]
     @ '' and provide a clean, resolved version that logically merges the changes.''
     @ [NL, NL]
     @ ''- IMPORTANT: Do NOT include the git conflict markers (<<<<<<<, =======, >>>>>>>) in your response.''
     @ [NL]
     @ ''- Only output the final, resolved code block. Do not add explanations, apologies, or any other text. Just the code.''
     @ [NL, NL] @ ''--- INCOMING CHANGE ---'' @ [NL] @ their @ [NL] @ ''---'' @ [NL, NL]
     @ ''--- CURRENT CHANGE ---'' @ [NL] @ our @ [NL] @ ''---'' @ [NL, NL]
     @ ''--- RESOLVED CODE ---'' @ [NL]"

text \<open>Lines 93 to 131.\<close>

definition getGeminiResolution ::
  "env \<Rightarrow> string \<Rightarrow> string \<Rightarrow> string \<Rightarrow> world \<Rightarrow> (abort + string) \<times> world" where
  "getGeminiResolution e our their filePath w =
     (case callGeminiAPI e (prompt our their filePath) w of
        (Inl stop, w') \<Rightarrow> (Inl stop, w')
      | (Inr response, w') \<Rightarrow>
          (case extract_text response of
             None \<Rightarrow> (Inl (Thrown MALFORMED_RESPONSE), w')
           | Some resolvedCode \<Rightarrow> (Inr resolvedCode, w')))"

section \<open>Resolving one file\<close>

text \<open>
  Lines 150 to 160: the loop over the reversed matches. \<open>content\<close> is the buffer, and
  each match carries the offsets of the one scan made before the loop.
\<close>

fun resolve_matches ::
  "env \<Rightarrow> string \<Rightarrow> regexp_match list \<Rightarrow> string \<Rightarrow> world \<Rightarrow> (abort + string) \<times> world" where
  "resolve_matches e filePath [] content w = (Inr content, w)"
| "resolve_matches e filePath (m # ms) content w =
     (case getGeminiResolution e (ourCode m) (theirCode m) filePath w of
        (Inl stop, w') \<Rightarrow> (Inl stop, w')
      | (Inr resolvedCode, w') \<Rightarrow>
          resolve_matches e filePath ms (splice content m resolvedCode) w')"

text \<open>
  The buffer of that loop when the calls answer with the texts \<open>rs\<close>, in the order of
  the calls: the first text is spliced for the last match.
\<close>

definition resolve_with :: "string \<Rightarrow> string list \<Rightarrow> string" where
  "resolve_with content rs =
     foldl (\<lambda>buffer (m, r). splice buffer m r) content (zip (rev (matchAll content)) rs)"

text \<open>
  The oracle the specification compares the loop with: it scans the buffer again after
  each splice, and splices the next text for the last match of the new scan.
\<close>

fun reparse_oracle :: "string \<Rightarrow> string list \<Rightarrow> string" where
  "reparse_oracle content [] = content"
| "reparse_oracle content (r # rs) =
     (case matchAll content of
        [] \<Rightarrow> content
      | m # ms \<Rightarrow> reparse_oracle (splice content (last (m # ms)) r) rs)"

text \<open>
  Lines 137 to 164. Reading succeeds on a regular file; writing replaces the file's
  content and is recorded.
\<close>

definition resolveConflictsInFile :: "env \<Rightarrow> string \<Rightarrow> world \<Rightarrow> (abort + unit) \<times> world" where
  "resolveConflictsInFile e filePath w =
     (case files w filePath of
        Some (File content) \<Rightarrow>
          let matches = matchAll content in
          if matches = [] then (Inr (), w)
          else
            (case resolve_matches e filePath (rev matches) content w of
               (Inl stop, w') \<Rightarrow> (Inl stop, w')
             | (Inr content', w') \<Rightarrow>
                 (Inr (), w'\<lparr>files := (files w')(filePath \<mapsto> File content'),
                             writes := writes w' @ [(filePath, content')]\<rparr>))
      | _ \<Rightarrow> (Inl (Thrown (READ_FAILED filePath)), w))"

section \<open>The run\<close>

text \<open>
  Lines 190 to 200: the loop over the conflicted paths, with the flag
  \<^verbatim>\<open>unresolvedSubmodules\<close>. \<open>Inl (Thrown err)\<close> is an error on its way to the
  \<^verbatim>\<open>catch\<close> of line 208; \<open>Inr\<close> is the flag at the end of the loop.
\<close>

fun resolve_paths :: "env \<Rightarrow> string list \<Rightarrow> bool \<Rightarrow> world \<Rightarrow> (abort + bool) \<times> world" where
  "resolve_paths e [] unresolvedSubmodules w = (Inr unresolvedSubmodules, w)"
| "resolve_paths e (file # rest) unresolvedSubmodules w =
     (case files w file of
        None \<Rightarrow> (Inl (Thrown (STAT_FAILED file)), w)
      | Some Directory \<Rightarrow>
          resolve_paths e rest True
            (w\<lparr>submodule_warnings := submodule_warnings w @ [file]\<rparr>)
      | Some (File content) \<Rightarrow>
          (case resolveConflictsInFile e file w of
             (Inl stop, w') \<Rightarrow> (Inl stop, w')
           | (Inr u, w') \<Rightarrow>
               let w'' = w'\<lparr>stage_calls := stage_calls w' @ [file]\<rparr> in
               if git_add_ok e file then resolve_paths e rest unresolvedSubmodules w''
               else (Inl (Thrown (COMMAND_FAILED file)), w'')))"

text \<open>
  Lines 170 to 212, from the lines of \<^verbatim>\<open>git diff --name-only --diff-filter=U\<close>. The
  result is the exit code of the process and the world it leaves: 1 from
  \<^verbatim>\<open>process.exit(1)\<close> and from an error that nothing catches, 0 when \<^verbatim>\<open>main\<close> returns and
  when a promise is never settled.
\<close>

definition main :: "env \<Rightarrow> string list \<Rightarrow> world \<Rightarrow> nat \<times> world" where
  "main e names w =
     (if GEMINI_API_KEY e = None \<or> GEMINI_API_KEY e = Some [] then (1, w)
      else
        let conflictedFiles = filter (\<lambda>f. f \<noteq> []) names in
        if conflictedFiles = [] then (0, w)
        else
          (case resolve_paths e conflictedFiles False w of
             (Inl (Thrown err), w') \<Rightarrow> (1, w')
           | (Inl Never_settled, w') \<Rightarrow> (0, w')
           | (Inr unresolvedSubmodules, w') \<Rightarrow>
               if unresolvedSubmodules then (1, w') else (0, w')))"

section \<open>Frames and example runs\<close>

text \<open>
  The part of the world that a resolver call leaves alone: the file system and the
  records of writes, stage calls and submodule warnings.
\<close>

definition untouched :: "world \<Rightarrow> world \<Rightarrow> bool" where
  "untouched w w' =
     (files w' = files w \<and> writes w' = writes w \<and> stage_calls w' = stage_calls w
      \<and> submodule_warnings w' = submodule_warnings w)"

definition key_present :: "env \<Rightarrow> bool" where
  "key_present e = (\<not> (GEMINI_API_KEY e = None \<or> GEMINI_API_KEY e = Some []))"

definition world0 :: world where
  "world0 = \<lparr>files = Map.empty, requests = 0, delays = [], writes = [],
              stage_calls = [], submodule_warnings = []\<rparr>"

text \<open>The answer of the service that carries \<open>t\<close> as its resolved text.\<close>

definition answer :: "string \<Rightarrow> json" where
  "answer t =
     JObj [(''candidates'',
       JArr [JObj [(''content'', JObj [(''parts'', JArr [JObj [(''text'', JStr t)]])])]])]"






text \<open>
  A service that always answers with the text \<open>baz\<close> between white space, and one
  whose second answer lacks the text field.
\<close>

definition raw_baz :: string where
  "raw_baz = ''  baz'' @ [NL]"

definition env_baz :: env where
  "env_baz =
     \<lparr>GEMINI_API_KEY = Some ''key'',
      api = (\<lambda>n p. Response_end 200 ''...'' (Some (answer raw_baz))),
      git_add_ok = (\<lambda>f. True)\<rparr>"

definition env_malformed :: env where
  "env_malformed =
     \<lparr>GEMINI_API_KEY = Some ''key'',
      api = (\<lambda>n p. if n = 0 then Response_end 200 ''...'' (Some (answer ''x''))
                   else Response_end 200 ''{}'' (Some (JObj []))),
      git_add_ok = (\<lambda>f. True)\<rparr>"



text \<open>The text of the specification's scenario, and a text with two conflicts.\<close>

definition scenario_text :: string where
  "scenario_text =
     ''a'' @ [NL] @ ''<<<<<<< HEAD'' @ [NL] @ ''foo'' @ [NL] @ ''======='' @ [NL]
     @ ''bar'' @ [NL] @ ''>>>>>>> branch'' @ [NL] @ ''b'' @ [NL]"

definition two_conflicts :: string where
  "two_conflicts =
     ''<<<<<<< A'' @ [NL] @ ''1'' @ [NL] @ ''======='' @ [NL] @ ''2'' @ [NL] @ ''>>>>>>> B''
     @ [NL] @ ''<<<<<<< C'' @ [NL] @ ''3'' @ [NL] @ ''======='' @ [NL] @ ''4'' @ [NL]
     @ ''>>>>>>> D'' @ [NL]"

text \<open>The matches of these two texts, and the scenario's text after the splice.\<close>

definition scenario_region :: regexp_match where
  "scenario_region =
     \<lparr>index = 2,
      fullConflictBlock = ''<<<<<<< HEAD'' @ [NL] @ ''foo'' @ [NL] @ ''=======''
        @ [NL] @ ''bar'' @ [NL] @ ''>>>>>>> branch'',
      ourCode = ''foo'', theirCode = ''bar''\<rparr>"

definition scenario_resolved :: string where
  "scenario_resolved = ''a'' @ [NL] @ ''baz'' @ [NL] @ ''b'' @ [NL]"

definition region_one :: regexp_match where
  "region_one =
     \<lparr>index = 0,
      fullConflictBlock = ''<<<<<<< A'' @ [NL] @ ''1'' @ [NL] @ ''=======''
        @ [NL] @ ''2'' @ [NL] @ ''>>>>>>> B'',
      ourCode = ''1'', theirCode = ''2''\<rparr>"

definition region_two :: regexp_match where
  "region_two =
     \<lparr>index = 32,
      fullConflictBlock = ''<<<<<<< C'' @ [NL] @ ''3'' @ [NL] @ ''=======''
        @ [NL] @ ''4'' @ [NL] @ ''>>>>>>> D'',
      ourCode = ''3'', theirCode = ''4''\<rparr>"

text \<open>
  More texts: one without any marker; a conflict as \<^verbatim>\<open>git\<close> writes it when the
  side of \<^verbatim>\<open>HEAD\<close> is empty, and one when the other side is empty; a conflict whose
  first marker is not at the start of its line.
\<close>

definition plain_text :: string where
  "plain_text = ''abc'' @ [NL]"

definition empty_ours_text :: string where
  "empty_ours_text =
     ''<<<<<<< HEAD'' @ [NL] @ ''======='' @ [NL] @ ''bar'' @ [NL] @ ''>>>>>>> branch'' @ [NL]"

definition empty_theirs_text :: string where
  "empty_theirs_text =
     ''<<<<<<< HEAD'' @ [NL] @ ''foo'' @ [NL] @ ''======='' @ [NL] @ ''>>>>>>> branch'' @ [NL]"

definition midline_text :: string where
  "midline_text =
     ''x<<<<<<< HEAD'' @ [NL] @ ''foo'' @ [NL] @ ''======='' @ [NL] @ ''bar'' @ [NL]
     @ ''>>>>>>> branch'' @ [NL]"

text \<open>The match of \<open>midline_text\<close>, and an answer that is itself a conflict.\<close>

definition midline_region :: regexp_match where
  "midline_region =
     \<lparr>index = 1,
      fullConflictBlock = ''<<<<<<< HEAD'' @ [NL] @ ''foo'' @ [NL] @ ''=======''
        @ [NL] @ ''bar'' @ [NL] @ ''>>>>>>> branch'',
      ourCode = ''foo'', theirCode = ''bar''\<rparr>"

definition nested_region :: regexp_match where
  "nested_region =
     \<lparr>index = 32,
      fullConflictBlock = ''<<<<<<< X'' @ [NL] @ ''5'' @ [NL] @ ''======='' @ [NL] @ ''6''
        @ [NL] @ ''>>>>>>> Y'',
      ourCode = ''5'', theirCode = ''6''\<rparr>"

definition nested_conflict :: string where
  "nested_conflict =
     ''<<<<<<< X'' @ [NL] @ ''5'' @ [NL] @ ''======='' @ [NL] @ ''6'' @ [NL] @ ''>>>>>>> Y''"

definition midline_resolved :: string where
  "midline_resolved = ''xbaz'' @ [NL]"

text \<open>
  Example worlds: two conflicted files; a submodule beside the file of the scenario;
  the file of the scenario after a path that does not exist in the work tree.
\<close>

definition world_two :: world where
  "world_two =
     world0\<lparr>files := [''f'' \<mapsto> File two_conflicts, ''g'' \<mapsto> File scenario_text]\<rparr>"

definition world_plain :: world where
  "world_plain = world0\<lparr>files := [''f'' \<mapsto> File plain_text]\<rparr>"

definition world_midline :: world where
  "world_midline = world0\<lparr>files := [''f'' \<mapsto> File midline_text]\<rparr>"

definition world_empty_ours :: world where
  "world_empty_ours = world0\<lparr>files := [''f'' \<mapsto> File empty_ours_text]\<rparr>"

definition world_scenario :: world where
  "world_scenario =
     world0\<lparr>files := [''dirA'' \<mapsto> Directory, ''file.txt'' \<mapsto> File scenario_text]\<rparr>"

section \<open>Notions of the specification\<close>

text \<open>
  The lines of a text: what stands between two line feeds, before the first and after
  the last. \<open>first_line_cons c ls\<close> puts \<open>c\<close> in front of the first line of \<open>ls\<close>.
\<close>

definition first_line_cons :: "char \<Rightarrow> string list \<Rightarrow> string list" where
  "first_line_cons c ls = (c # hd ls) # tl ls"

fun lines_of :: "string \<Rightarrow> string list" where
  "lines_of [] = [[]]"
| "lines_of (c # cs) =
     (if c = NL then [] # lines_of cs else first_line_cons c (lines_of cs))"

text \<open>
  A conflict-marker triple, as the specification describes a region: a line that starts
  with the ours marker, after it a line that is exactly the separator marker, after
  that a line that starts with the theirs marker. The text holds one when its lines,
  from the first ours line on, hold a separator line with a theirs line after it.
\<close>

definition marker_triple :: "string \<Rightarrow> bool" where
  "marker_triple content =
     (case dropWhile (\<lambda>l. \<not> prefix ours_marker l) (lines_of content) of
        [] \<Rightarrow> False
      | _ # after_ours \<Rightarrow>
          (case dropWhile (\<lambda>l. l \<noteq> ''======='') after_ours of
             [] \<Rightarrow> False
           | _ # after_separator \<Rightarrow> list_ex (prefix ''>>>>>>>'') after_separator))"

text \<open>The ours marker stands inside a line that does not start with it.\<close>

definition marker_inside_line :: "string \<Rightarrow> bool" where
  "marker_inside_line content =
     list_ex (\<lambda>l. \<not> prefix ours_marker l \<and> first_occurrence ours_marker l \<noteq> None)
       (lines_of content)"



section \<open>Facts\<close>

subsection \<open>The regular expression\<close>

lemma first_occurrence_prefix:
  "first_occurrence pat s = Some k \<Longrightarrow> prefix pat (drop k s) \<and> k \<le> length s"
proof (induction s arbitrary: k)
  case Nil
  then show ?case by (simp split: if_splits)
next
  case (Cons c cs)
  then show ?case by (auto split: if_splits)
qed

lemma first_occurrence_least:
  "first_occurrence pat s = Some k \<Longrightarrow> j < k \<Longrightarrow> \<not> prefix pat (drop j s)"
proof (induction s arbitrary: k j)
  case Nil
  then show ?case by (simp split: if_splits)
next
  case (Cons c cs)
  show ?case
  proof (cases "prefix pat (c # cs)")
    case True
    with Cons.prems show ?thesis by simp
  next
    case False
    with Cons.prems obtain k' where k': "first_occurrence pat cs = Some k'" "k = Suc k'"
      by auto
    show ?thesis
    proof (cases j)
      case 0
      with False show ?thesis by simp
    next
      case (Suc j')
      with Cons.IH [OF k'(1), of j'] k'(2) Cons.prems(2) show ?thesis by simp
    qed
  qed
qed

lemma first_occurrence_here:
  "prefix pat s \<Longrightarrow> first_occurrence pat s = Some 0"
  by (cases s) simp_all

lemma first_occurrence_complete:
  "\<exists>k. first_occurrence pat (a @ pat @ b) = Some k \<and> k \<le> length a"
proof (induction a)
  case Nil
  show ?case by (simp add: first_occurrence_here)
next
  case (Cons c a)
  then show ?case by auto
qed

lemma first_occurrence_None:
  "first_occurrence pat s = None \<Longrightarrow> s \<noteq> a @ pat @ b"
  using first_occurrence_complete [of pat a b] by auto

lemma first_occurrence_split:
  assumes "first_occurrence pat s = Some k"
  shows "s = take k s @ pat @ drop (k + length pat) s"
proof -
  from first_occurrence_prefix [OF assms] obtain post where p: "drop k s = pat @ post"
    by (auto simp: prefix_def)
  have "drop (k + length pat) s = drop (length pat) (drop k s)"
    by (simp add: add.commute)
  with p have "drop k s = pat @ drop (k + length pat) s" by simp
  then show ?thesis by (metis append_take_drop_id)
qed

lemma marker_lengths [simp]:
  "length ours_marker = 7" "length separator = 9" "length theirs_marker = 8"
  by (simp_all add: ours_marker_def separator_def theirs_marker_def)

lemma exec_at_Nil: "exec_at [] = None"
  by (simp add: exec_at_def ours_marker_def)

lemma takeWhile_no_NL: "NL \<notin> set (takeWhile (\<lambda>c. c \<noteq> NL) xs)"
  by (induction xs) auto

text \<open>What a successful attempt has matched.\<close>

lemma exec_at_sound:
  assumes "exec_at s = Some (len, g1, g2)"
  shows "\<exists>label label2.
           s = ours_marker @ label @ [NL] @ g1 @ separator @ g2 @ theirs_marker @ label2
               @ drop len s
           \<and> len = length (ours_marker @ label @ [NL] @ g1 @ separator @ g2 @ theirs_marker @ label2)
           \<and> NL \<notin> set label \<and> NL \<notin> set label2
           \<and> (drop len s = [] \<or> hd (drop len s) = NL)"
proof -
  let ?P = "\<lambda>c. c \<noteq> NL"
  from assms have pm: "prefix ours_marker s"
    by (auto simp: exec_at_def split: if_splits)
  define r0 where "r0 = drop 7 s"
  define label where "label = takeWhile ?P r0"
  from pm have s0: "s = ours_marker @ r0"
    by (auto simp: prefix_def r0_def)
  from assms pm obtain x r2 where r1: "drop (length label) r0 = x # r2"
    by (auto simp: exec_at_def Let_def r0_def label_def split: list.splits)
  have "dropWhile ?P r0 = x # r2"
    using r1 by (simp add: label_def dropWhile_eq_drop)
  then have x: "x = NL" by (metis (mono_tags, lifting) hd_dropWhile list.sel(1) list.simps(3))
  have r0: "r0 = label @ NL # r2"
    using r1 x by (metis append_take_drop_id label_def takeWhile_eq_take)
  from assms pm r1 obtain k where k: "first_occurrence separator r2 = Some k"
    by (auto simp: exec_at_def Let_def r0_def label_def split: list.splits option.splits)
  define r3 where "r3 = drop (k + 9) r2"
  from assms pm r1 k obtain m where m: "first_occurrence theirs_marker r3 = Some m"
    by (auto simp: exec_at_def Let_def r0_def label_def r3_def split: list.splits option.splits)
  define r4 where "r4 = drop (m + 8) r3"
  define label2 where "label2 = takeWhile ?P r4"
  from assms pm r1 k m have res: "len = 7 + length label + 1 + k + 9 + m + 8 + length label2"
    "g1 = take k r2" "g2 = take m r3"
    by (auto simp: exec_at_def Let_def r0_def label_def r3_def r4_def label2_def)
  have r2: "r2 = g1 @ separator @ r3"
    using first_occurrence_split [OF k] by (simp add: res r3_def)
  have r3: "r3 = g2 @ theirs_marker @ r4"
    using first_occurrence_split [OF m] by (simp add: res r4_def)
  have r4: "r4 = label2 @ dropWhile ?P r4" by (simp add: label2_def)
  have len: "len = length (ours_marker @ label @ [NL] @ g1 @ separator @ g2 @ theirs_marker @ label2)"
    using first_occurrence_prefix [OF k] first_occurrence_prefix [OF m]
    by (simp add: res min_absorb2)
  have s: "s = (ours_marker @ label @ [NL] @ g1 @ separator @ g2 @ theirs_marker @ label2)
             @ dropWhile ?P r4"
    using s0 r0 r2 r3 r4 by simp
  then have d: "drop len s = dropWhile ?P r4"
    using len by (metis append_eq_conv_conj)
  have e: "dropWhile ?P r4 = [] \<or> hd (dropWhile ?P r4) = NL"
    by (metis (mono_tags, lifting) hd_dropWhile)
  have "NL \<notin> set label" "NL \<notin> set label2"
    by (simp_all add: label_def label2_def takeWhile_no_NL)
  with s d e len show ?thesis by (metis append.assoc)
qed


text \<open>An attempt after the header line is decided by the two searches.\<close>

lemma exec_at_header:
  assumes "NL \<notin> set label"
  shows "exec_at (ours_marker @ label @ NL # r2) =
     (case first_occurrence separator r2 of
        None \<Rightarrow> None
      | Some k \<Rightarrow>
         (case first_occurrence theirs_marker (drop (k + 9) r2) of
            None \<Rightarrow> None
          | Some m \<Rightarrow>
              Some (7 + length label + 1 + k + 9 + m + 8
                      + length (takeWhile (\<lambda>c. c \<noteq> NL) (drop (m + 8) (drop (k + 9) r2))),
                    take k r2, take m (drop (k + 9) r2))))"
proof -
  have d: "drop 7 (ours_marker @ label @ NL # r2) = label @ NL # r2"
    by (simp add: ours_marker_def)
  have t: "takeWhile (\<lambda>c. c \<noteq> NL) (label @ NL # r2) = label"
    using assms by (induction label) auto
  show ?thesis
    by (simp add: exec_at_def d t Let_def split: option.splits)
qed

lemma exec_at_complete:
  assumes "NL \<notin> set label"
  shows "exec_at (ours_marker @ label @ [NL] @ our @ separator @ their @ theirs_marker @ rest)
         \<noteq> None"
proof -
  let ?r2 = "our @ separator @ their @ theirs_marker @ rest"
  from first_occurrence_complete [of separator our "their @ theirs_marker @ rest"]
  obtain k where k: "first_occurrence separator ?r2 = Some k" "k \<le> length our"
    by auto
  have "drop (k + 9) ?r2 = drop (k + 9) (our @ separator) @ their @ theirs_marker @ rest"
    using k(2) by simp
  then have "drop (k + 9) ?r2 = (drop (k + 9) (our @ separator) @ their) @ theirs_marker @ rest"
    by simp
  with first_occurrence_complete [of theirs_marker "drop (k + 9) (our @ separator) @ their" rest]
  obtain m where m: "first_occurrence theirs_marker (drop (k + 9) ?r2) = Some m"
    by auto
  show ?thesis
    using exec_at_header [OF assms, of ?r2] k(1) m by simp
qed

lemma scan_Nil_iff: "scan off s = [] \<longleftrightarrow> (\<forall>i. exec_at (drop i s) = None)"
proof (induction off s rule: scan.induct)
  case (1 off)
  show ?case by (simp add: exec_at_Nil)
next
  case (2 off c cs)
  show ?case
  proof (cases "exec_at (c # cs)")
    case None
    have "(\<forall>i. exec_at (drop i (c # cs)) = None) \<longleftrightarrow> (\<forall>i. exec_at (drop i cs) = None)"
    proof
      assume a: "\<forall>i. exec_at (drop i (c # cs)) = None"
      show "\<forall>i. exec_at (drop i cs) = None"
      proof
        fix i from a have "exec_at (drop (Suc i) (c # cs)) = None" by blast
        then show "exec_at (drop i cs) = None" by simp
      qed
    next
      assume a: "\<forall>i. exec_at (drop i cs) = None"
      show "\<forall>i. exec_at (drop i (c # cs)) = None"
      proof
        fix i show "exec_at (drop i (c # cs)) = None"
          using a None by (cases i) simp_all
      qed
    qed
    with None "2.IH"(1) show ?thesis by simp
  next
    case (Some r)
    have "\<not> (\<forall>i. exec_at (drop i (c # cs)) = None)"
    proof
      assume "\<forall>i. exec_at (drop i (c # cs)) = None"
      then have "exec_at (drop 0 (c # cs)) = None" by (rule spec)
      with Some show False by simp
    qed
    with Some show ?thesis by (auto split: prod.splits)
  qed
qed

lemma matchAll_Nil_iff: "matchAll content = [] \<longleftrightarrow> \<not> contains_conflict_block content"
proof
  assume e: "matchAll content = []"
  show "\<not> contains_conflict_block content"
  proof
    assume "contains_conflict_block content"
    then obtain pre label our their label2 post where
      c: "content = pre @ (ours_marker @ label @ [NL] @ our @ separator @ their
            @ theirs_marker @ label2) @ post" and l: "NL \<notin> set label"
      by (auto simp: contains_conflict_block_def conflict_block_def)
    then have "drop (length pre) content
               = ours_marker @ label @ [NL] @ our @ separator @ their @ theirs_marker
                 @ (label2 @ post)"
      by simp
    with exec_at_complete [OF l, of our their "label2 @ post"]
    have "exec_at (drop (length pre) content) \<noteq> None" by simp
    with e show False by (simp add: matchAll_def scan_Nil_iff)
  qed
next
  assume n: "\<not> contains_conflict_block content"
  show "matchAll content = []"
  proof (rule ccontr)
    assume "matchAll content \<noteq> []"
    then obtain i r where "exec_at (drop i content) = Some r"
      by (auto simp: matchAll_def scan_Nil_iff)
    then obtain len g1 g2 where "exec_at (drop i content) = Some (len, g1, g2)"
      by (cases r) auto
    from exec_at_sound [OF this] obtain label label2 where
      d: "drop i content = ours_marker @ label @ [NL] @ g1 @ separator @ g2 @ theirs_marker
            @ label2 @ drop len (drop i content)"
      and l: "NL \<notin> set label" "NL \<notin> set label2"
      by blast
    have "content = take i content @ drop i content" by simp
    with d have "content = take i content
        @ (ours_marker @ label @ [NL] @ g1 @ separator @ g2 @ theirs_marker @ label2)
        @ drop len (drop i content)"
      by (metis append.assoc)
    with l have "contains_conflict_block content"
      unfolding contains_conflict_block_def conflict_block_def by blast
    with n show False ..
  qed
qed

lemma prefix_append_long:
  "length pat \<le> length a \<Longrightarrow> prefix pat (a @ b) = prefix pat a"
  by (auto simp: prefix_append)

lemma first_occurrence_extend:
  "first_occurrence pat u = Some k \<Longrightarrow> first_occurrence pat (u @ v) = Some k"
proof (induction u arbitrary: k)
  case Nil
  then show ?case by (simp add: first_occurrence_here split: if_splits)
next
  case (Cons c cs)
  show ?case
  proof (cases "prefix pat (c # cs)")
    case True
    with Cons.prems have "k = 0" by simp
    moreover from True have "prefix pat ((c # cs) @ v)" by (rule prefix_prefix)
    ultimately show ?thesis by simp
  next
    case False
    with Cons.prems obtain k' where k': "first_occurrence pat cs = Some k'" "k = Suc k'"
      by auto
    from first_occurrence_prefix [OF k'(1)] have "length pat \<le> length (drop k' cs)"
      by (auto dest: prefix_length_le)
    then have "length pat \<le> length (c # cs)" by simp
    from prefix_append_long [OF this, of v] False have "\<not> prefix pat ((c # cs) @ v)" by simp
    with Cons.IH [OF k'(1)] k'(2) show ?thesis by simp
  qed
qed

lemma first_occurrence_restrict:
  "first_occurrence pat (u @ v) = Some k \<Longrightarrow> k + length pat \<le> length u \<Longrightarrow>
   first_occurrence pat u = Some k"
proof (induction u arbitrary: k)
  case Nil
  then show ?case by simp
next
  case (Cons c cs)
  show ?case
  proof (cases "prefix pat ((c # cs) @ v)")
    case True
    with Cons.prems(1) have k: "k = 0" by simp
    with Cons.prems(2) have "length pat \<le> length (c # cs)" by simp
    from prefix_append_long [OF this, of v] True have "prefix pat (c # cs)" by simp
    with k show ?thesis by simp
  next
    case False
    with Cons.prems(1) obtain k' where k': "first_occurrence pat (cs @ v) = Some k'" "k = Suc k'"
      by auto
    with Cons.prems(2) have "k' + length pat \<le> length cs" by simp
    from Cons.IH [OF k'(1) this] have "first_occurrence pat cs = Some k'" .
    moreover from False have "\<not> prefix pat (c # cs)"
      using prefix_prefix by blast
    ultimately show ?thesis using k'(2) by simp
  qed
qed

lemma takeWhile_label: "NL \<notin> set l \<Longrightarrow> rest = [] \<or> hd rest = NL \<Longrightarrow>
  takeWhile (\<lambda>c. c \<noteq> NL) (l @ rest) = l"
  by (induction l) (cases rest; auto)+

lemma exec_at_shape:
  assumes "matched_shape label g1 g2 label2 rest"
  shows "exec_at (ours_marker @ label @ [NL] @ g1 @ separator @ g2 @ theirs_marker @ label2 @ rest)
         = Some (length (ours_marker @ label @ [NL] @ g1 @ separator @ g2 @ theirs_marker @ label2),
                 g1, g2)"
proof -
  let ?r3 = "g2 @ theirs_marker @ label2 @ rest"
  let ?r2 = "g1 @ separator @ ?r3"
  from assms have l: "NL \<notin> set label" and l2: "NL \<notin> set label2"
    and rest: "rest = [] \<or> hd rest = NL"
    and k0: "first_occurrence separator (g1 @ separator) = Some (length g1)"
    and m0: "first_occurrence theirs_marker (g2 @ theirs_marker) = Some (length g2)"
    by (simp_all add: matched_shape_def)
  from first_occurrence_extend [OF k0, of ?r3]
  have k: "first_occurrence separator ?r2 = Some (length g1)" by simp
  have d3: "drop (length g1 + 9) ?r2 = ?r3" by simp
  from first_occurrence_extend [OF m0, of "label2 @ rest"]
  have m: "first_occurrence theirs_marker ?r3 = Some (length g2)" by simp
  have d4: "drop (length g2 + 8) ?r3 = label2 @ rest" by simp
  show ?thesis
    using exec_at_header [OF l, of ?r2]
    by (simp add: k d3 m d4 takeWhile_label [OF l2 rest])
qed

lemma exec_at_shaped:
  assumes "exec_at s = Some (len, g1, g2)"
  shows "\<exists>label label2 rest.
           s = ours_marker @ label @ [NL] @ g1 @ separator @ g2 @ theirs_marker @ label2 @ rest
           \<and> len = length (ours_marker @ label @ [NL] @ g1 @ separator @ g2 @ theirs_marker @ label2)
           \<and> matched_shape label g1 g2 label2 rest"
proof -
  from exec_at_sound [OF assms] obtain label label2 where
    s: "s = ours_marker @ label @ [NL] @ g1 @ separator @ g2 @ theirs_marker @ label2
            @ drop len s"
    and len: "len = length (ours_marker @ label @ [NL] @ g1 @ separator @ g2 @ theirs_marker @ label2)"
    and l: "NL \<notin> set label" "NL \<notin> set label2"
    and rest: "drop len s = [] \<or> hd (drop len s) = NL"
    by blast
  let ?rest = "drop len s"
  let ?r3 = "g2 @ theirs_marker @ label2 @ ?rest"
  let ?r2 = "g1 @ separator @ ?r3"
  have e: "exec_at (ours_marker @ label @ NL # ?r2) = Some (len, g1, g2)"
    using assms s by simp
  from e exec_at_header [OF l(1), of ?r2]
  obtain k where k: "first_occurrence separator ?r2 = Some k"
    by (auto split: option.splits)
  from e exec_at_header [OF l(1), of ?r2] k
  obtain m where m: "first_occurrence theirs_marker (drop (k + 9) ?r2) = Some m"
    by (auto split: option.splits)
  from e exec_at_header [OF l(1), of ?r2] k m
  have g: "g1 = take k ?r2" "g2 = take m (drop (k + 9) ?r2)" by simp_all
  from first_occurrence_prefix [OF k] g(1) have kl: "k = length g1"
    by (metis length_take min.absorb2)
  then have d: "drop (k + 9) ?r2 = ?r3" by simp
  from first_occurrence_prefix [OF m] g(2) have ml: "m = length g2"
    by (metis length_take min.absorb2)
  have "first_occurrence separator ((g1 @ separator) @ ?r3) = Some (length g1)"
    using k kl by simp
  then have k0: "first_occurrence separator (g1 @ separator) = Some (length g1)"
    by (rule first_occurrence_restrict) simp
  have "first_occurrence theirs_marker ((g2 @ theirs_marker) @ label2 @ ?rest) = Some (length g2)"
    using m ml d by simp
  then have m0: "first_occurrence theirs_marker (g2 @ theirs_marker) = Some (length g2)"
    by (rule first_occurrence_restrict) simp
  have "matched_shape label g1 g2 label2 ?rest"
    using l rest k0 m0 by (simp add: matched_shape_def)
  with s len show ?thesis by blast
qed

lemma exec_at_no_marker: "\<not> prefix ours_marker s \<Longrightarrow> exec_at s = None"
  by (simp add: exec_at_def)

lemma exec_at_marker: "exec_at s = Some r \<Longrightarrow> prefix ours_marker s"
  by (simp add: exec_at_def split: if_splits)

lemma exec_at_length_le: "exec_at s = Some (len, g1, g2) \<Longrightarrow> len \<le> length s"
proof -
  assume "exec_at s = Some (len, g1, g2)"
  from exec_at_sound [OF this] obtain label label2 where
    "s = ours_marker @ label @ [NL] @ g1 @ separator @ g2 @ theirs_marker @ label2 @ drop len s"
    "len = length (ours_marker @ label @ [NL] @ g1 @ separator @ g2 @ theirs_marker @ label2)"
    by blast
  then show ?thesis by (metis append.assoc length_append le_add1)
qed

lemma exec_at_extend:
  assumes "exec_at (u @ v) = Some (len, g1, g2)" and "len < length u"
  shows "exec_at (u @ v') = Some (len, g1, g2)"
proof -
  from exec_at_shaped [OF assms(1)] obtain label label2 rest where
    s: "u @ v = ours_marker @ label @ [NL] @ g1 @ separator @ g2 @ theirs_marker @ label2 @ rest"
    and len: "len = length (ours_marker @ label @ [NL] @ g1 @ separator @ g2 @ theirs_marker @ label2)"
    and sh: "matched_shape label g1 g2 label2 rest"
    by blast
  let ?M = "ours_marker @ label @ [NL] @ g1 @ separator @ g2 @ theirs_marker @ label2"
  from s have s': "u @ v = ?M @ rest" by simp
  from s' len have "take len (u @ v) = ?M" by (metis append_eq_conv_conj)
  with assms(2) have tu: "take len u = ?M" by simp
  from s' len have "drop len (u @ v) = rest" by (metis append_eq_conv_conj)
  with assms(2) have rest: "rest = drop len u @ v" by simp
  from assms(2) have ne: "drop len u \<noteq> []" by simp
  with sh rest have "hd (drop len u) = NL" by (simp add: matched_shape_def)
  with ne have "hd (drop len u @ v') = NL" by simp
  with sh have "matched_shape label g1 g2 label2 (drop len u @ v')"
    by (simp add: matched_shape_def)
  from exec_at_shape [OF this] len
  have "exec_at (?M @ drop len u @ v') = Some (len, g1, g2)" by simp
  moreover have "u = ?M @ drop len u" using tu by (metis append_take_drop_id)
  ultimately show ?thesis by (metis append.assoc)
qed

text \<open>A marker before a successful attempt on the same text succeeds too.\<close>

lemma exec_at_earlier_marker:
  assumes "prefix ours_marker (u @ t)" and "exec_at t \<noteq> None"
  shows "exec_at (u @ t) \<noteq> None"
proof -
  let ?P = "\<lambda>c. c \<noteq> NL"
  from assms(2) obtain len g1 g2 where "exec_at t = Some (len, g1, g2)" by auto
  from exec_at_sound [OF this] obtain label label2 where
    t: "t = ours_marker @ label @ [NL] @ g1 @ separator @ g2 @ theirs_marker @ label2 @ drop len t"
    by blast
  define Y where "Y = g1 @ separator @ g2 @ theirs_marker @ label2 @ drop len t"
  define A where "A = drop 7 (u @ ours_marker @ label)"
  from t have t': "u @ t = (u @ ours_marker @ label) @ NL # Y" by (simp add: Y_def)
  from assms(1) obtain zs where "u @ t = ours_marker @ zs"
    by (auto simp: prefix_def)
  then have "u @ t = ours_marker @ drop 7 (u @ t)"
    by (metis append_eq_conv_conj marker_lengths(1))
  also have "drop 7 (u @ t) = A @ NL # Y"
    unfolding t' A_def by simp
  finally have ut: "u @ t = ours_marker @ A @ NL # Y" .
  obtain W0 where W: "dropWhile ?P A @ NL # Y = NL # W0 @ Y"
  proof (cases "dropWhile ?P A")
    case Nil
    then have "dropWhile ?P A @ NL # Y = NL # [] @ Y" by simp
    then show ?thesis by (rule that)
  next
    case (Cons x xs)
    then have "\<not> ?P x" by (metis (mono_tags, lifting) hd_dropWhile list.sel(1) list.simps(3))
    with Cons have "dropWhile ?P A @ NL # Y = NL # (xs @ [NL]) @ Y" by simp
    then show ?thesis by (rule that)
  qed
  have "A @ NL # Y = takeWhile ?P A @ dropWhile ?P A @ NL # Y" by simp
  with W have "A @ NL # Y = takeWhile ?P A @ NL # W0 @ Y" by simp
  with ut have "u @ t = ours_marker @ takeWhile ?P A @ [NL] @ (W0 @ g1) @ separator @ g2
      @ theirs_marker @ (label2 @ drop len t)"
    by (simp add: Y_def)
  with exec_at_complete [OF takeWhile_no_NL [of A], of "W0 @ g1" g2 "label2 @ drop len t"]
  show ?thesis by simp
qed

lemma ours_marker_chars: "set ours_marker = {CHR ''<''}"
  by (simp add: ours_marker_def)

lemma prefix_marker_nth:
  assumes "prefix ours_marker z" and "i < 7"
  shows "i < length z \<and> z ! i = CHR ''<''"
proof -
  from assms(1) obtain zs where z: "z = ours_marker @ zs" by (auto simp: prefix_def)
  from assms(2) have "ours_marker ! i \<in> set ours_marker" by simp
  then have "ours_marker ! i = CHR ''<''" by (simp add: ours_marker_chars)
  with z assms(2) show ?thesis by (simp add: nth_append)
qed

lemma NL_not_lt: "NL \<noteq> CHR ''<''"
  by (simp add: NL_def)

text \<open>A marker never runs over the end of a line.\<close>

lemma marker_within_line:
  assumes "\<not> prefix ours_marker a" and "s = [] \<or> hd s = NL"
  shows "\<not> prefix ours_marker (a @ s)"
proof
  assume p: "prefix ours_marker (a @ s)"
  show False
  proof (cases "7 \<le> length a")
    case True
    then have "length ours_marker \<le> length a" by simp
    from prefix_append_long [OF this] p assms(1) show False by simp
  next
    case False
    then have lt: "length a < 7" by simp
    from prefix_marker_nth [OF p lt]
    have n: "length a < length (a @ s)" "(a @ s) ! length a = CHR ''<''" by simp_all
    from n(1) have ne: "s \<noteq> []" by simp
    with n(2) have "hd s = CHR ''<''" by (simp add: nth_append hd_conv_nth)
    with ne assms(2) NL_not_lt show False by auto
  qed
qed

text \<open>
  Where a marker follows and no marker stands, none stands whatever follows instead:
  the characters before the marker that follows do not end with \<^verbatim>\<open><\<close>.
\<close>

lemma no_marker_before_block:
  assumes "prefix ours_marker b" and "\<not> prefix ours_marker (p @ b @ s)"
  shows "\<not> prefix ours_marker (p @ x)"
proof
  assume px: "prefix ours_marker (p @ x)"
  show False
  proof (cases "7 \<le> length p")
    case True
    then have "length ours_marker \<le> length p" by simp
    from prefix_append_long [OF this] px assms(2) show False by simp
  next
    case False
    then have lt: "length p < 7" by simp
    have om: "ours_marker = replicate 7 (CHR ''<'')"
      by (simp add: ours_marker_def eval_nat_numeral)
    from px obtain zs where "p @ x = ours_marker @ zs" by (auto simp: prefix_def)
    then have "take (length p) (p @ x) = take (length p) (ours_marker @ zs)" by simp
    with lt have "p = take (length p) ours_marker" by simp
    with lt have p: "p = replicate (length p) (CHR ''<'')" by (simp add: om min_absorb2)
    from assms(1) obtain b' where b: "b = ours_marker @ b'" by (auto simp: prefix_def)
    have "p @ ours_marker = replicate (length p + 7) (CHR ''<'')"
      by (subst p) (simp add: om replicate_add [symmetric])
    also have "\<dots> = ours_marker @ p"
      by (subst (2) p) (simp add: om replicate_add [symmetric] add.commute)
    finally have "p @ b @ s = ours_marker @ p @ b' @ s" by (simp add: b)
    then have "prefix ours_marker (p @ b @ s)" by (simp only: prefixI)
    with assms(2) show False ..
  qed
qed

lemma scan_member:
  "m \<in> set (scan off s) \<Longrightarrow>
     off \<le> index m \<and> index m + length (fullConflictBlock m) \<le> off + length s
     \<and> exec_at (drop (index m - off) s)
         = Some (length (fullConflictBlock m), ourCode m, theirCode m)
     \<and> fullConflictBlock m = take (length (fullConflictBlock m)) (drop (index m - off) s)"
proof (induction off s rule: scan.induct)
  case (1 off)
  then show ?case by simp
next
  case (2 off c cs)
  show ?case
  proof (cases "exec_at (c # cs)")
    case None
    with "2.prems" have "m \<in> set (scan (Suc off) cs)" by simp
    from "2.IH"(1) [OF None this]
    have ih: "Suc off \<le> index m"
      "index m + length (fullConflictBlock m) \<le> Suc off + length cs"
      "exec_at (drop (index m - Suc off) cs)
         = Some (length (fullConflictBlock m), ourCode m, theirCode m)"
      "fullConflictBlock m = take (length (fullConflictBlock m)) (drop (index m - Suc off) cs)"
      by simp_all
    from ih(1) have "index m - off = Suc (index m - Suc off)" by simp
    then have "drop (index m - off) (c # cs) = drop (index m - Suc off) cs" by simp
    with ih show ?thesis by simp
  next
    case (Some r)
    obtain len g1 g2 where r: "r = (len, g1, g2)" by (cases r)
    with Some have e: "exec_at (c # cs) = Some (len, g1, g2)" by simp
    from exec_at_length_le [OF e] have le: "len \<le> length (c # cs)" .
    let ?m0 = "\<lparr>index = off, fullConflictBlock = take len (c # cs),
                 ourCode = g1, theirCode = g2\<rparr>"
    from e "2.prems" have "m = ?m0 \<or> m \<in> set (scan (off + len) (drop len (c # cs)))"
      by simp
    then show ?thesis
    proof
      assume "m = ?m0"
      with e le show ?thesis by (simp add: min_absorb2)
    next
      assume "m \<in> set (scan (off + len) (drop len (c # cs)))"
      from "2.IH"(2) [OF Some r [symmetric] refl this]
      have ih: "off + len \<le> index m"
        "index m + length (fullConflictBlock m) \<le> off + len + length (drop len (c # cs))"
        "exec_at (drop (index m - (off + len)) (drop len (c # cs)))
           = Some (length (fullConflictBlock m), ourCode m, theirCode m)"
        "fullConflictBlock m
           = take (length (fullConflictBlock m)) (drop (index m - (off + len)) (drop len (c # cs)))"
        by blast+
      from ih(1) have "index m - (off + len) + len = index m - off" by simp
      then have d: "drop (index m - (off + len)) (drop len (c # cs)) = drop (index m - off) (c # cs)"
        by (simp only: drop_drop)
      from ih(3) d have 3: "exec_at (drop (index m - off) (c # cs))
           = Some (length (fullConflictBlock m), ourCode m, theirCode m)"
        by (simp only:)
      from ih(4) d have 4: "fullConflictBlock m
           = take (length (fullConflictBlock m)) (drop (index m - off) (c # cs))"
        by (simp only:)
      from ih(1,2) le have "off \<le> index m"
        "index m + length (fullConflictBlock m) \<le> off + length (c # cs)" by simp_all
      with 3 4 show ?thesis by blast
    qed
  qed
qed

lemma scan_sorted:
  "sorted_wrt (\<lambda>a b. index a + length (fullConflictBlock a) \<le> index b) (scan off s)"
proof (induction off s rule: scan.induct)
  case (1 off)
  show ?case by simp
next
  case (2 off c cs)
  show ?case
  proof (cases "exec_at (c # cs)")
    case None
    with "2.IH"(1) show ?thesis by simp
  next
    case (Some r)
    obtain len g1 g2 where r: "r = (len, g1, g2)" by (cases r)
    with Some have e: "exec_at (c # cs) = Some (len, g1, g2)" by simp
    from exec_at_length_le [OF e] have le: "len \<le> length (c # cs)" .
    have "off + len \<le> index b" if "b \<in> set (scan (off + len) (drop len (c # cs)))" for b
      using scan_member [OF that] by simp
    with "2.IH"(2) [OF Some r [symmetric] refl] e le show ?thesis
      by (simp add: min_absorb2)
  qed
qed

lemma scan_last_match:
  assumes "exec_at (b @ s) = Some (length b, g1, g2)"
    and "scan off (b @ s) = ms @ [m]" and "index m = off"
  shows "ms = [] \<and> scan (off + length b) s = [] \<and> (s = [] \<or> hd s = NL)"
proof -
  from exec_at_length_pos [OF assms(1)] have pos: "0 < length b" .
  then obtain c cs where bs: "b @ s = c # cs" by (cases b) auto
  let ?m0 = "\<lparr>index = off, fullConflictBlock = take (length b) (c # cs),
               ourCode = g1, theirCode = g2\<rparr>"
  from assms(1) bs have "scan off (b @ s) = ?m0 # scan (off + length b) (drop (length b) (c # cs))"
    by simp
  moreover from bs have "drop (length b) (c # cs) = s" by (metis append_eq_conv_conj)
  ultimately have sc: "ms @ [m] = ?m0 # scan (off + length b) s"
    using assms(2) by simp
  have ms: "ms = []"
  proof (cases ms)
    case Nil
    then show ?thesis .
  next
    case (Cons a ms')
    with sc have "scan (off + length b) s = ms' @ [m]" by simp
    then have "m \<in> set (scan (off + length b) s)" by simp
    from scan_member [OF this] assms(3) pos show ?thesis by simp
  qed
  with sc have "scan (off + length b) s = []" by simp
  moreover from exec_at_sound [OF assms(1)] have "s = [] \<or> hd s = NL" by auto
  ultimately show ?thesis using ms by simp
qed

lemma first_occurrence_None_drop:
  assumes "first_occurrence pat r = None"
  shows "\<not> prefix pat (drop i r)"
proof
  assume "prefix pat (drop i r)"
  then obtain zs where "drop i r = pat @ zs" by (auto simp: prefix_def)
  then have "r = take i r @ pat @ zs" by (metis append_take_drop_id)
  with first_occurrence_None [OF assms] show False by blast
qed

lemma scan_without_marker:
  assumes "first_occurrence ours_marker r = None" and "s = [] \<or> hd s = NL"
    and "scan off s = []"
  shows "scan off' (r @ s) = []"
proof -
  have "exec_at (drop i (r @ s)) = None" for i
  proof (cases "i < length r")
    case True
    from first_occurrence_None_drop [OF assms(1)] have "\<not> prefix ours_marker (drop i r)" .
    from marker_within_line [OF this assms(2)] True show ?thesis
      by (simp add: exec_at_no_marker)
  next
    case False
    then have "drop i (r @ s) = drop (i - length r) s" by simp
    with assms(3) show ?thesis by (simp add: scan_Nil_iff)
  qed
  then show ?thesis by (simp add: scan_Nil_iff)
qed

text \<open>
  The scan of a buffer after the splice of its last match, by a text in which the marker
  \<^verbatim>\<open><<<<<<<\<close> does not occur: the matches before it, as they were.
\<close>

lemma scan_after_splice:
  assumes "scan off (p @ b @ s) = ms @ [m]" and "index m = off + length p"
    and "fullConflictBlock m = b" and "first_occurrence ours_marker r = None"
  shows "scan off (p @ r @ s) = ms"
  using assms(1,2)
proof (induction "length p" arbitrary: p off ms rule: less_induct)
  case less
  have mem: "m \<in> set (scan off (p @ b @ s))" using less.prems(1) by simp
  from scan_member [OF mem] less.prems(2) assms(3)
  have eb: "exec_at (b @ s) = Some (length b, ourCode m, theirCode m)" by simp
  then have pb: "prefix ours_marker (b @ s)" by (rule exec_at_marker)
  show ?case
  proof (cases p)
    case Nil
    with less.prems have "scan off (b @ s) = ms @ [m]" "index m = off" by simp_all
    from scan_last_match [OF eb this]
    have "ms = []" "scan (off + length b) s = []" "s = [] \<or> hd s = NL" by simp_all
    with scan_without_marker [OF assms(4), of s "off + length b" off] Nil show ?thesis by simp
  next
    case (Cons c p')
    show ?thesis
    proof (cases "exec_at (p @ b @ s)")
      case None
      with Cons less.prems(1) have 1: "scan (Suc off) (p' @ b @ s) = ms @ [m]" by simp
      from Cons less.prems(2) have 2: "index m = Suc off + length p'" by simp
      from Cons have "length p' < length p" by simp
      from less.hyps [OF this 1 2] have ih: "scan (Suc off) (p' @ r @ s) = ms" .
      have "\<not> prefix ours_marker (p @ b @ s)"
        using exec_at_earlier_marker [of p "b @ s"] eb None by auto
      moreover from pb have "prefix ours_marker b"
        using exec_at_length_le [OF eb] prefix_append_long [of ours_marker b s]
          exec_at_sound [OF eb] by auto
      ultimately have "\<not> prefix ours_marker (p @ r @ s)"
        using no_marker_before_block [of b p s "r @ s"] by simp
      then have "exec_at (p @ r @ s) = None" by (rule exec_at_no_marker)
      with Cons ih show ?thesis by simp
    next
      case (Some x)
      obtain len g1 g2 where x: "x = (len, g1, g2)" by (cases x)
      with Some have e: "exec_at (p @ b @ s) = Some (len, g1, g2)" by simp
      from exec_at_length_pos [OF e] have pos: "0 < len" .
      let ?m0 = "\<lparr>index = off, fullConflictBlock = take len (p @ b @ s),
                   ourCode = g1, theirCode = g2\<rparr>"
      from e Cons have sc: "scan off (p @ b @ s) = ?m0 # scan (off + len) (drop len (p @ b @ s))"
        by simp
      from Cons less.prems(2) have "index m \<noteq> index ?m0" by simp
      then have "m \<noteq> ?m0" by auto
      with sc less.prems(1) obtain ms' where ms: "ms = ?m0 # ms'"
        and rest: "scan (off + len) (drop len (p @ b @ s)) = ms' @ [m]"
        by (cases ms) auto
      from rest have "m \<in> set (scan (off + len) (drop len (p @ b @ s)))" by simp
      from scan_member [OF this] less.prems(2) have le: "len \<le> length p" by simp
      have "len \<noteq> length p"
      proof
        assume eq: "len = length p"
        from exec_at_sound [OF e] have "drop len (p @ b @ s) = [] \<or> hd (drop len (p @ b @ s)) = NL"
          by auto
        with eq have "b @ s = [] \<or> hd (b @ s) = NL" by simp
        moreover from prefix_marker_nth [OF pb, of 0]
        have "b @ s \<noteq> []" "hd (b @ s) = CHR ''<''" by (auto simp: hd_conv_nth)
        ultimately show False using NL_not_lt by simp
      qed
      with le have lt: "len < length p" by simp
      from exec_at_extend [OF e lt, of "r @ s"]
      have e': "exec_at (p @ r @ s) = Some (len, g1, g2)" .
      from lt have t: "take len (p @ r @ s) = take len (p @ b @ s)" by simp
      from lt have d: "drop len (p @ b @ s) = drop len p @ b @ s"
        "drop len (p @ r @ s) = drop len p @ r @ s" by simp_all
      from pos lt have "length (drop len p) < length p" by simp
      moreover from rest d have "scan (off + len) (drop len p @ b @ s) = ms' @ [m]" by simp
      moreover from less.prems(2) lt have "index m = off + len + length (drop len p)" by simp
      ultimately have "scan (off + len) (drop len p @ r @ s) = ms'"
        by (rule less.hyps)
      with e' Cons t d ms show ?thesis by simp
    qed
  qed
qed

subsection \<open>The retry loop\<close>






subsection \<open>Frames and sequencing\<close>

lemma untouched_refl: "untouched w w"
  by (simp add: untouched_def)

lemma untouched_trans: "untouched w w' \<Longrightarrow> untouched w' w'' \<Longrightarrow> untouched w w''"
  by (simp add: untouched_def)

lemma callGeminiAPI_from_untouched: "untouched w (snd (callGeminiAPI_from e p i w))"
proof (induction e p i w rule: callGeminiAPI_from.induct)
  case (1 e payload i w)
  show ?case
    apply (subst callGeminiAPI_from.simps)
    using "1.IH" [OF _ refl] by (auto simp: Let_def untouched_def split: attempt_outcome.splits)
qed

lemma getGeminiResolution_untouched:
  "getGeminiResolution e our their f w = (r, w') \<Longrightarrow> untouched w w'"
  using callGeminiAPI_from_untouched [of w e "prompt our their f" 0]
  by (auto simp: getGeminiResolution_def callGeminiAPI_def split: prod.splits sum.splits option.splits)

lemma resolve_matches_untouched:
  "resolve_matches e f ms content w = (r, w') \<Longrightarrow> untouched w w'"
proof (induction ms arbitrary: content w)
  case Nil
  then show ?case by (simp add: untouched_refl)
next
  case (Cons m ms)
  obtain r1 w1 where g: "getGeminiResolution e (ourCode m) (theirCode m) f w = (r1, w1)"
    by (cases "getGeminiResolution e (ourCode m) (theirCode m) f w")
  from getGeminiResolution_untouched [OF g] have u: "untouched w w1" .
  show ?case
  proof (cases r1)
    case (Inl err)
    with Cons.prems g u show ?thesis by simp
  next
    case (Inr resolvedCode)
    with Cons.prems g have "resolve_matches e f ms (splice content m resolvedCode) w1 = (r, w')"
      by simp
    from Cons.IH [OF this] u show ?thesis by (rule untouched_trans [rotated])
  qed
qed

lemma resolve_matches_append:
  "resolve_matches e f (xs @ ys) content w =
     (case resolve_matches e f xs content w of
        (Inl err, w') \<Rightarrow> (Inl err, w')
      | (Inr content', w') \<Rightarrow> resolve_matches e f ys content' w')"
  by (induction xs arbitrary: content w) (auto split: prod.splits sum.splits)

lemma resolve_paths_append:
  "resolve_paths e (xs @ ys) flag w =
     (case resolve_paths e xs flag w of
        (Inl err, w') \<Rightarrow> (Inl err, w')
      | (Inr flag', w') \<Rightarrow> resolve_paths e ys flag' w')"
  by (induction xs arbitrary: flag w)
     (auto simp: Let_def split: prod.splits sum.splits option.splits node.splits)

lemma main_unfold:
  "key_present e \<Longrightarrow> file \<noteq> [] \<Longrightarrow>
   main e (pre @ file # rest) w =
     (case resolve_paths e (filter (\<lambda>f. f \<noteq> []) pre @ file # filter (\<lambda>f. f \<noteq> []) rest) False w of
        (Inl (Thrown err), w') \<Rightarrow> (1, w')
      | (Inl Never_settled, w') \<Rightarrow> (0, w')
      | (Inr unresolvedSubmodules, w') \<Rightarrow> if unresolvedSubmodules then (1, w') else (0, w'))"
  by (auto simp: main_def key_present_def)

subsection \<open>Splices in descending order\<close>

lemma content_split:
  assumes "m \<in> set (matchAll content)"
  shows "content = take (index m) content @ fullConflictBlock m
                   @ drop (index m + length (fullConflictBlock m)) content"
    and "index m + length (fullConflictBlock m) \<le> length content"
proof -
  from assms have "m \<in> set (scan 0 content)" by (simp add: matchAll_def)
  from scan_member [OF this]
  have le: "index m + length (fullConflictBlock m) \<le> length content"
    and b: "fullConflictBlock m = take (length (fullConflictBlock m)) (drop (index m) content)"
    by simp_all
  show "index m + length (fullConflictBlock m) \<le> length content" by (rule le)
  have 1: "drop (index m) content
        = take (length (fullConflictBlock m)) (drop (index m) content)
          @ drop (length (fullConflictBlock m)) (drop (index m) content)"
    by (simp only: append_take_drop_id)
  have 2: "drop (length (fullConflictBlock m)) (drop (index m) content)
        = drop (index m + length (fullConflictBlock m)) content"
    by (simp only: drop_drop add.commute)
  from 1 2 b have "drop (index m) content
        = fullConflictBlock m @ drop (index m + length (fullConflictBlock m)) content"
    by (simp only:)
  then have "take (index m) content @ drop (index m) content
        = take (index m) content @ fullConflictBlock m
          @ drop (index m + length (fullConflictBlock m)) content"
    by (simp only:)
  then show "content = take (index m) content @ fullConflictBlock m
                   @ drop (index m + length (fullConflictBlock m)) content"
    by (simp only: append_take_drop_id)
qed

lemma matchAll_after_splice:
  assumes "matchAll content = ms @ [m]" and "first_occurrence ours_marker r = None"
  shows "matchAll (splice content m r) = ms"
proof -
  let ?p = "take (index m) content"
  let ?s = "drop (index m + length (fullConflictBlock m)) content"
  from assms(1) have mem: "m \<in> set (matchAll content)" by simp
  from content_split [OF mem]
  have c: "content = ?p @ fullConflictBlock m @ ?s"
    and le: "index m + length (fullConflictBlock m) \<le> length content" by simp_all
  from le have lp: "length ?p = index m" by simp
  from assms(1) c have "scan 0 (?p @ fullConflictBlock m @ ?s) = ms @ [m]"
    by (simp add: matchAll_def)
  from scan_after_splice [OF this _ refl assms(2)] lp
  have "scan 0 (?p @ r @ ?s) = ms" by simp
  then show ?thesis by (simp add: matchAll_def splice_def)
qed

lemma resolve_with_oracle:
  "length rs = length (matchAll content) \<Longrightarrow>
   list_all (\<lambda>r. first_occurrence ours_marker r = None) rs \<Longrightarrow>
   resolve_with content rs = reparse_oracle content rs"
proof (induction rs arbitrary: content)
  case Nil
  then show ?case by (simp add: resolve_with_def)
next
  case (Cons r rs)
  from Cons.prems(1) have ne: "matchAll content \<noteq> []" by auto
  then obtain ms m where ms: "matchAll content = ms @ [m]"
    by (metis append_butlast_last_id)
  from Cons.prems(2) have r: "first_occurrence ours_marker r = None"
    and rs: "list_all (\<lambda>r. first_occurrence ours_marker r = None) rs"
    by simp_all
  from matchAll_after_splice [OF ms r] have re: "matchAll (splice content m r) = ms" .
  from Cons.prems(1) ms have "length rs = length (matchAll (splice content m r))"
    by (simp add: re)
  from Cons.IH [OF this rs]
  have ih: "resolve_with (splice content m r) rs = reparse_oracle (splice content m r) rs" .
  have 1: "resolve_with content (r # rs) = resolve_with (splice content m r) rs"
    by (simp add: resolve_with_def ms re)
  have "reparse_oracle content (r # rs)
        = reparse_oracle (splice content (last (matchAll content)) r) rs"
    using ne by (cases "matchAll content") (simp_all del: last.simps)
  then have 2: "reparse_oracle content (r # rs) = reparse_oracle (splice content m r) rs"
    by (simp add: ms)
  from 1 2 ih show ?case by simp
qed

lemma resolve_matches_texts:
  "resolve_matches e f ms content w = (Inr c', w') \<Longrightarrow>
   \<exists>rs. length rs = length ms \<and>
        c' = foldl (\<lambda>buffer (m, r). splice buffer m r) content (zip ms rs)"
proof (induction ms arbitrary: content w)
  case Nil
  then show ?case by simp
next
  case (Cons m ms)
  obtain x w1 where g: "getGeminiResolution e (ourCode m) (theirCode m) f w = (x, w1)"
    by (cases "getGeminiResolution e (ourCode m) (theirCode m) f w")
  with Cons.prems obtain r where x: "x = Inr r"
    by (cases x) auto
  with g Cons.prems have "resolve_matches e f ms (splice content m r) w1 = (Inr c', w')"
    by simp
  from Cons.IH [OF this] obtain rs where
    "length rs = length ms"
    "c' = foldl (\<lambda>buffer (m, r). splice buffer m r) (splice content m r) (zip ms rs)"
    by blast
  then have "length (r # rs) = length (m # ms) \<and>
     c' = foldl (\<lambda>buffer (m, r). splice buffer m r) content (zip (m # ms) (r # rs))"
    by simp
  then show ?case by blast
qed

lemma splice_keeps_prefix:
  "n \<le> index m \<Longrightarrow> n \<le> length buffer \<Longrightarrow> take n (splice buffer m r) = take n buffer"
  by (simp add: splice_def min_absorb2)

lemma foldl_keeps_prefix:
  "list_all (\<lambda>(m, r). n \<le> index m) todo \<Longrightarrow> n \<le> length buffer \<Longrightarrow>
   take n (foldl (\<lambda>buffer (m, r). splice buffer m r) buffer todo) = take n buffer"
proof (induction todo arbitrary: buffer)
  case Nil
  then show ?case by simp
next
  case (Cons a todo)
  obtain m r where a: "a = (m, r)" by (cases a)
  with Cons.prems have n: "n \<le> index m" and rest: "list_all (\<lambda>(m, r). n \<le> index m) todo"
    by simp_all
  from splice_keeps_prefix [OF n Cons.prems(2)]
  have t: "take n (splice buffer m r) = take n buffer" .
  then have "length (take n (splice buffer m r)) = length (take n buffer)" by simp
  with Cons.prems(2) have "n \<le> length (splice buffer m r)" by simp
  from Cons.IH [OF rest this] t a show ?case by simp
qed

lemma unprocessed_prefix:
  assumes "m' \<in> set (take (length (matchAll content) - j) (matchAll content))"
  shows "take (index m' + length (fullConflictBlock m'))
           (foldl (\<lambda>buffer (m, r). splice buffer m r) content
              (take j (zip (rev (matchAll content)) rs)))
         = take (index m' + length (fullConflictBlock m')) content"
proof -
  let ?ms = "matchAll content"
  let ?n = "index m' + length (fullConflictBlock m')"
  let ?k = "length ?ms - j"
  from assms have mem: "m' \<in> set ?ms" by (rule in_set_takeD)
  from content_split(2) [OF mem] have le: "?n \<le> length content" .
  have "sorted_wrt (\<lambda>a b. index a + length (fullConflictBlock a) \<le> index b)
          (take ?k ?ms @ drop ?k ?ms)"
    using scan_sorted [of 0 content] by (simp add: matchAll_def)
  then have "\<forall>x\<in>set (take ?k ?ms). \<forall>y\<in>set (drop ?k ?ms).
      index x + length (fullConflictBlock x) \<le> index y"
    unfolding sorted_wrt_append by blast
  with assms have later: "?n \<le> index m" if "m \<in> set (drop ?k ?ms)" for m
    using that by blast
  have "?n \<le> index m" if "(m, r) \<in> set (take j (zip (rev ?ms) rs))" for m r
  proof -
    from that have "(m, r) \<in> set (zip (take j (rev ?ms)) (take j rs))"
      by (simp add: take_zip)
    then have "m \<in> set (take j (rev ?ms))" by (rule set_zip_leftD)
    then have "m \<in> set (drop ?k ?ms)" by (simp add: take_rev)
    then show ?thesis by (rule later)
  qed
  then have "list_all (\<lambda>(m, r). ?n \<le> index m) (take j (zip (rev ?ms) rs))"
    by (auto simp: list_all_iff)
  from foldl_keeps_prefix [OF this le] show ?thesis .
qed

subsection \<open>Extracting the resolved text\<close>





lemma callGeminiAPI_first:
  "attempt_outcome_of (api e (requests w) p) = Resolved j \<Longrightarrow>
   callGeminiAPI e p w = (Inr (Value j), w\<lparr>requests := Suc (requests w)\<rparr>)"
  by (simp add: callGeminiAPI_def MAX_RETRIES_def callGeminiAPI_from.simps [of e p 0])



lemma get_property_object:
  "map_of kvs name = Some x \<Longrightarrow> get_property (Value (JObj kvs)) name = Some (Value x)"
  by simp











subsection \<open>The scenario of the specification\<close>

lemma scenario_parse: "matchAll scenario_text = [scenario_region]"
  by (simp add: matchAll_def exec_at_def ours_marker_def separator_def
      theirs_marker_def NL_def Let_def scenario_text_def scenario_region_def)

lemma scenario_splice: "splice scenario_text scenario_region ''baz'' = scenario_resolved"
  by (simp add: splice_def scenario_text_def scenario_region_def scenario_resolved_def)

lemma two_conflicts_parse: "matchAll two_conflicts = [region_one, region_two]"
  by (simp add: matchAll_def exec_at_def ours_marker_def separator_def
      theirs_marker_def NL_def Let_def two_conflicts_def region_one_def region_two_def)

lemma getGeminiResolution_first:
  "attempt_outcome_of (api e (requests w) (prompt our their f)) = Resolved j \<Longrightarrow>
   getGeminiResolution e our their f w =
     (case extract_text (Value j) of
        None \<Rightarrow> (Inl (Thrown MALFORMED_RESPONSE), w\<lparr>requests := Suc (requests w)\<rparr>)
      | Some resolvedCode \<Rightarrow> (Inr resolvedCode, w\<lparr>requests := Suc (requests w)\<rparr>))"
  by (simp add: getGeminiResolution_def callGeminiAPI_first)

lemma extract_text_answer: "extract_text (Value (answer t)) = Some (trim t)"
  by (simp add: extract_text_def text_field_def answer_def)

lemma trim_baz: "trim raw_baz = ''baz''" and trim_x: "trim ''x'' = ''x''"
  by (simp_all add: trim_def is_white_space_def NL_def raw_baz_def)

lemma resolve_scenario_file:
  "files w ''file.txt'' = Some (File scenario_text) \<Longrightarrow>
   resolveConflictsInFile env_baz ''file.txt'' w
     = (Inr (), w\<lparr>requests := Suc (requests w),
                  files := (files w)(''file.txt'' \<mapsto> File scenario_resolved),
                  writes := writes w @ [(''file.txt'', scenario_resolved)]\<rparr>)"
  by (simp add: resolveConflictsInFile_def scenario_parse getGeminiResolution_first
      env_baz_def extract_text_answer trim_baz scenario_splice
      scenario_region_def [THEN arg_cong, of ourCode] scenario_region_def [THEN arg_cong, of theirCode])

lemma git_add_ok_env_baz: "git_add_ok env_baz f"
  by (simp add: env_baz_def)

text \<open>
  Claim C7. The text \<open>a\<close>, the conflict of \<open>foo\<close> and \<open>bar\<close> between the markers
  \<^verbatim>\<open><<<<<<< HEAD\<close>, \<^verbatim>\<open>=======\<close> and \<^verbatim>\<open>>>>>>>> branch\<close>, \<open>b\<close>, each line ended by
  a line feed, has exactly one match, with \<^verbatim>\<open>ourCode\<close> \<open>foo\<close> and \<^verbatim>\<open>theirCode\<close>
  \<open>bar\<close>; splicing \<open>baz\<close> for it gives the lines \<open>a\<close>, \<open>baz\<close>, \<open>b\<close>, and that is the
  content \<^verbatim>\<open>resolveConflictsInFile\<close> writes when the service answers \<open>baz\<close>.
\<close>

theorem scenario_resolution:
  "matchAll scenario_text = [scenario_region] \<and>
   ourCode scenario_region = ''foo'' \<and> theirCode scenario_region = ''bar'' \<and>
   splice scenario_text scenario_region ''baz'' = scenario_resolved \<and>
   resolveConflictsInFile env_baz ''file.txt'' world_scenario
     = (Inr (), world_scenario
          \<lparr>files := (files world_scenario)(''file.txt'' \<mapsto> File scenario_resolved),
           requests := 1,
           writes := [(''file.txt'', scenario_resolved)]\<rparr>)"
  by (simp add: scenario_parse scenario_splice)
     (simp add: world_scenario_def world0_def resolve_scenario_file scenario_region_def)

subsection \<open>The loop over the paths\<close>

text \<open>
  Claim C10. When \<^verbatim>\<open>fs.stat\<close> rejects for a path (the path does not exist), the run
  ends with exit code 1 in the world the paths before it left: nothing is recorded for
  the path, and whatever paths follow it are not looked at.
\<close>

theorem stat_failure_aborts:
  assumes "key_present e" and "file \<noteq> []"
    and "resolve_paths e (filter (\<lambda>f. f \<noteq> []) pre) False w0 = (Inr flag, w)"
    and "files w file = None"
  shows "main e (pre @ file # rest) w0 = (1, w)"
  using assms by (simp add: main_unfold resolve_paths_append)

theorem stat_failure_aborts_witness:
  "files world_scenario ''gone'' = None \<and>
   main env_baz ([''dirA''] @ ''gone'' # [''file.txt'']) world_scenario
     = (1, world_scenario\<lparr>submodule_warnings := [''dirA'']\<rparr>)"
proof -
  have 1: "key_present env_baz" by (simp add: key_present_def env_baz_def)
  have 2: "''gone'' \<noteq> []" by simp
  have 3: "resolve_paths env_baz (filter (\<lambda>f. f \<noteq> []) [''dirA'']) False world_scenario
           = (Inr True, world_scenario\<lparr>submodule_warnings := [''dirA'']\<rparr>)"
    by (simp add: world_scenario_def world0_def)
  have 4: "files (world_scenario\<lparr>submodule_warnings := [''dirA'']\<rparr>) ''gone'' = None"
    by (simp add: world_scenario_def world0_def)
  from stat_failure_aborts [OF 1 2 3 4, of "[''file.txt'']"] 4 show ?thesis by simp
qed

text \<open>
  Claim C5. When the resolver call of a region throws, after the regions below it in
  the reversed list were resolved, \<^verbatim>\<open>resolveConflictsInFile\<close> throws that error in the
  world the failed call left: no request is made for the regions still to do, and the
  file system and the records of writes and stage calls are as they were before the
  file. The run ends with exit code 1 in that world, whatever paths follow.
\<close>

theorem region_failure_aborts:
  assumes "key_present e" and "file \<noteq> []"
    and "resolve_paths e (filter (\<lambda>f. f \<noteq> []) pre) False w0 = (Inr flag, w)"
    and "files w file = Some (File content)"
    and "rev (matchAll content) = done @ m # todo"
    and "resolve_matches e file done content w = (Inr buffer, w1)"
    and "getGeminiResolution e (ourCode m) (theirCode m) file w1 = (Inl (Thrown err), w2)"
  shows "resolveConflictsInFile e file w = (Inl (Thrown err), w2) \<and>
         untouched w w2 \<and>
         main e (pre @ file # rest) w0 = (1, w2)"
proof -
  have rm: "resolve_matches e file (rev (matchAll content)) content w = (Inl (Thrown err), w2)"
    using assms(5-7) by (simp add: resolve_matches_append)
  from assms(5) have ne: "matchAll content \<noteq> []" by auto
  have r: "resolveConflictsInFile e file w = (Inl (Thrown err), w2)"
    using assms(4) rm ne by (simp add: resolveConflictsInFile_def)
  have u: "untouched w w2" using resolve_matches_untouched [OF rm] .
  have "main e (pre @ file # rest) w0 = (1, w2)"
    using assms(1-4) r by (simp add: main_unfold resolve_paths_append)
  with r u show ?thesis by simp
qed

theorem region_failure_aborts_witness:
  "resolveConflictsInFile env_malformed ''f'' world_two
     = (Inl (Thrown MALFORMED_RESPONSE), world_two\<lparr>requests := 2\<rparr>) \<and>
   files (world_two\<lparr>requests := 2\<rparr>) ''f'' = Some (File two_conflicts) \<and>
   main env_malformed ([] @ ''f'' # [''g'']) world_two
     = (1, world_two\<lparr>requests := 2\<rparr>)"
proof -
  have 1: "key_present env_malformed" by (simp add: key_present_def env_malformed_def)
  have 2: "''f'' \<noteq> []" by simp
  have 3: "resolve_paths env_malformed (filter (\<lambda>f. f \<noteq> []) []) False world_two
           = (Inr False, world_two)"
    by simp
  have 4: "files world_two ''f'' = Some (File two_conflicts)"
    by (simp add: world_two_def world0_def)
  have 5: "rev (matchAll two_conflicts) = [region_two] @ region_one # []"
    by (simp add: two_conflicts_parse)
  have 6: "resolve_matches env_malformed ''f'' [region_two] two_conflicts world_two
           = (Inr (splice two_conflicts region_two ''x''), world_two\<lparr>requests := 1\<rparr>)"
    by (simp add: getGeminiResolution_first env_malformed_def world_two_def world0_def
        extract_text_answer trim_x region_two_def [THEN arg_cong, of ourCode]
        region_two_def [THEN arg_cong, of theirCode])
  have 7: "getGeminiResolution env_malformed (ourCode region_one) (theirCode region_one) ''f''
             (world_two\<lparr>requests := 1\<rparr>)
           = (Inl (Thrown MALFORMED_RESPONSE), world_two\<lparr>requests := 2\<rparr>)"
    by (simp add: getGeminiResolution_first env_malformed_def world_two_def world0_def
        extract_text_def text_field_def region_one_def)
  from region_failure_aborts [OF 1 2 3 4 5 6 7, of "[''g'']"] 4 show ?thesis
    by (simp add: world_two_def)
qed










subsection \<open>Files without a match\<close>

lemma plain_text_parse: "matchAll plain_text = []"
  by (simp add: matchAll_def exec_at_def ours_marker_def plain_text_def)

lemma empty_ours_parse: "matchAll empty_ours_text = []"
  by (simp add: matchAll_def exec_at_def ours_marker_def separator_def
      theirs_marker_def NL_def Let_def empty_ours_text_def)

lemma empty_theirs_parse: "matchAll empty_theirs_text = []"
  by (simp add: matchAll_def exec_at_def ours_marker_def separator_def
      theirs_marker_def NL_def Let_def empty_theirs_text_def)

lemma resolve_unmatched_file:
  "files w f = Some (File content) \<Longrightarrow> matchAll content = [] \<Longrightarrow>
   resolveConflictsInFile e f w = (Inr (), w)"
  by (simp add: resolveConflictsInFile_def)

lemma lines_of_not_Nil: "lines_of s \<noteq> []"
  by (induction s) (simp_all add: first_line_cons_def)

lemma lines_of_line: "NL \<notin> set l \<Longrightarrow> lines_of (l @ s) = (l @ hd (lines_of s)) # tl (lines_of s)"
  by (induction l) (auto simp: lines_of_not_Nil first_line_cons_def)

lemma lines_of_append_NL: "lines_of (a @ NL # b) = lines_of a @ lines_of b"
proof (induction a)
  case Nil
  show ?case by simp
next
  case (Cons c a)
  then show ?case by (simp add: lines_of_not_Nil first_line_cons_def)
qed

lemma lines_of_append:
  "lines_of (a @ b) = butlast (lines_of a) @ (last (lines_of a) @ hd (lines_of b)) # tl (lines_of b)"
proof (induction a)
  case Nil
  show ?case by (simp add: lines_of_not_Nil)
next
  case (Cons c a)
  show ?case
  proof (cases "c = NL")
    case True
    with Cons show ?thesis by (simp add: lines_of_not_Nil first_line_cons_def)
  next
    case False
    show ?thesis
    proof (cases "butlast (lines_of a) = []")
      case True
      then obtain l where l: "lines_of a = [l]"
        using lines_of_not_Nil [of a] by (cases "lines_of a") (auto split: if_splits)
      with Cons False show ?thesis by (simp add: first_line_cons_def)
    next
      case n: False
      then obtain l ls where l: "lines_of a = l # ls" "ls \<noteq> []"
        by (cases "lines_of a") (auto split: if_splits)
      with Cons False show ?thesis by (simp add: first_line_cons_def)
    qed
  qed
qed

text \<open>The three marker lines of a triple, among the lines of the text.\<close>

lemma dropWhile_stops:
  "\<not> P y \<Longrightarrow> \<exists>u zs. dropWhile P (xs @ y # ys) = u # zs @ ys"
proof (induction xs)
  case Nil
  then show ?case by simp
next
  case (Cons x xs)
  then obtain u zs where "dropWhile P (xs @ y # ys) = u # zs @ ys" by blast
  then show ?case by (cases "P x") (auto intro: exI [of _ "xs @ [y]"])
qed

lemma marker_triple_lines:
  assumes "lines_of content = a @ l1 # b @ ''======='' # c @ l3 # d"
    and "prefix ours_marker l1" and "prefix ''>>>>>>>'' l3"
  shows "marker_triple content"
proof -
  from dropWhile_stops [of "\<lambda>l. \<not> prefix ours_marker l" l1 a "b @ ''======='' # c @ l3 # d"]
    assms(2)
  obtain u zs where 1: "dropWhile (\<lambda>l. \<not> prefix ours_marker l) (lines_of content)
      = u # zs @ b @ ''======='' # c @ l3 # d"
    unfolding assms(1) by auto
  from dropWhile_stops [of "\<lambda>l. l \<noteq> ''=======''" "''=======''" "zs @ b" "c @ l3 # d"]
  obtain u' zs' where 2: "dropWhile (\<lambda>l. l \<noteq> ''======='') (zs @ b @ ''======='' # c @ l3 # d)
      = u' # zs' @ c @ l3 # d"
    by auto
  from assms(3) have "list_ex (prefix ''>>>>>>>'') (zs' @ c @ l3 # d)" by simp
  with 1 2 show ?thesis by (simp add: marker_triple_def)
qed

lemma marker_triple_iff:
  "marker_triple content \<longleftrightarrow>
     (\<exists>a l1 b c l3 d. lines_of content = a @ l1 # b @ ''======='' # c @ l3 # d
        \<and> prefix ours_marker l1 \<and> prefix ''>>>>>>>'' l3)"
proof
  assume t: "marker_triple content"
  let ?P = "\<lambda>l. \<not> prefix ours_marker l"
  let ?Q = "\<lambda>l. l \<noteq> ''=======''"
  from t obtain l1 r1 where 1: "dropWhile ?P (lines_of content) = l1 # r1"
    by (auto simp: marker_triple_def split: list.splits)
  with t obtain l2 r2 where 2: "dropWhile ?Q r1 = l2 # r2"
    by (auto simp: marker_triple_def split: list.splits)
  with t 1 have "list_ex (prefix ''>>>>>>>'') r2"
    by (simp add: marker_triple_def)
  then obtain l3 where "l3 \<in> set r2" "prefix ''>>>>>>>'' l3"
    by (auto simp: list_ex_iff)
  then obtain c d where 3: "r2 = c @ l3 # d" "prefix ''>>>>>>>'' l3"
    by (auto simp: in_set_conv_decomp)
  from 1 have p1: "prefix ours_marker l1" using hd_dropWhile [of ?P "lines_of content"] by auto
  from 2 have p2: "l2 = ''=======''" using hd_dropWhile [of ?Q r1] by auto
  have "lines_of content = takeWhile ?P (lines_of content) @ l1 # r1"
    using 1 takeWhile_dropWhile_id [of ?P "lines_of content"] by simp
  moreover have "r1 = takeWhile ?Q r1 @ l2 # r2"
    using 2 takeWhile_dropWhile_id [of ?Q r1] by simp
  ultimately have "lines_of content
      = takeWhile ?P (lines_of content) @ l1 # takeWhile ?Q r1 @ ''======='' # c @ l3 # d"
    using 3(1) p2 by simp
  with p1 3(2) show "\<exists>a l1 b c l3 d. lines_of content = a @ l1 # b @ ''======='' # c @ l3 # d
        \<and> prefix ours_marker l1 \<and> prefix ''>>>>>>>'' l3" by blast
next
  assume "\<exists>a l1 b c l3 d. lines_of content = a @ l1 # b @ ''======='' # c @ l3 # d
        \<and> prefix ours_marker l1 \<and> prefix ''>>>>>>>'' l3"
  then show "marker_triple content" using marker_triple_lines by blast
qed

text \<open>A conflict block lies on a triple of marker lines, but for the start of its first line.\<close>

lemma conflict_block_lines:
  assumes "content = pre @ ours_marker @ label @ [NL] @ our @ separator @ their
             @ theirs_marker @ label2 @ post"
    and "NL \<notin> set label"
  shows "\<exists>a b c l3 d. lines_of content
           = a @ (last (lines_of pre) @ ours_marker @ label) # b @ ''======='' # c @ l3 # d
         \<and> prefix ''>>>>>>>'' l3"
proof -
  let ?m = "ours_marker @ label"
  let ?x3 = "''>>>>>>>'' @ label2 @ post"
  have nl: "NL \<notin> set ?m" "NL \<notin> set ''=======''" "NL \<notin> set ''>>>>>>>''"
    using assms(2) by (simp_all add: ours_marker_def NL_def)
  have c: "content = (pre @ ?m) @ NL # (our @ NL # (''======='' @ NL # (their @ NL # ?x3)))"
    unfolding assms(1) by (simp add: separator_def theirs_marker_def)
  have 1: "lines_of (pre @ ?m) = butlast (lines_of pre) @ [last (lines_of pre) @ ?m]"
    using lines_of_append [of pre "?m @ []"] lines_of_line [OF nl(1), of "[]"] by simp
  have 2: "lines_of (''======='' @ NL # (their @ NL # ?x3))
           = ''======='' # lines_of their @ lines_of ?x3"
    using lines_of_append_NL [of "''=======''" "their @ NL # ?x3"]
      lines_of_line [OF nl(2), of "[]"] lines_of_append_NL [of their ?x3]
    by simp
  have 3: "lines_of ?x3 = (''>>>>>>>'' @ hd (lines_of (label2 @ post))) # tl (lines_of (label2 @ post))"
    using lines_of_line [OF nl(3), of "label2 @ post"] by simp
  have "lines_of content
        = butlast (lines_of pre) @ (last (lines_of pre) @ ?m) # lines_of our
          @ ''======='' # lines_of their
          @ (''>>>>>>>'' @ hd (lines_of (label2 @ post))) # tl (lines_of (label2 @ post))"
    unfolding c lines_of_append_NL [of "pre @ ?m"] lines_of_append_NL [of our] 1 2 3
    by simp
  moreover have "prefix ''>>>>>>>'' (''>>>>>>>'' @ hd (lines_of (label2 @ post)))"
    by (rule prefixI) simp
  ultimately show ?thesis by (metis append_assoc)
qed

lemma match_needs_triple:
  assumes "matchAll content \<noteq> []" and "\<not> marker_inside_line content"
  shows "marker_triple content"
proof -
  from assms(1) have "contains_conflict_block content" by (simp add: matchAll_Nil_iff)
  then obtain pre label our their label2 post where
    c: "content = pre @ ours_marker @ label @ [NL] @ our @ separator @ their
             @ theirs_marker @ label2 @ post" and l: "NL \<notin> set label"
    by (auto simp: contains_conflict_block_def conflict_block_def)
  let ?l1 = "last (lines_of pre) @ ours_marker @ label"
  from conflict_block_lines [OF c l] obtain a b c' l3 d where
    ls: "lines_of content = a @ ?l1 # b @ ''======='' # c' @ l3 # d" "prefix ''>>>>>>>'' l3"
    by blast
  from first_occurrence_complete [of ours_marker "last (lines_of pre)" label]
  have "first_occurrence ours_marker ?l1 \<noteq> None" by auto
  moreover have "?l1 \<in> set (lines_of content)" unfolding ls(1) by simp
  ultimately have "prefix ours_marker ?l1"
    using assms(2) by (auto simp: marker_inside_line_def list_ex_iff)
  from marker_triple_lines [OF ls(1) this ls(2)] show ?thesis .
qed

lemma midline_parse: "matchAll midline_text = [midline_region]"
  by (simp add: matchAll_def exec_at_def ours_marker_def separator_def
      theirs_marker_def NL_def Let_def midline_text_def midline_region_def)


lemma plain_text_lines: "lines_of plain_text = [''abc'', []]"
  by (simp add: plain_text_def NL_def first_line_cons_def)

lemma plain_text_no_triple: "\<not> marker_triple plain_text \<and> \<not> marker_inside_line plain_text"
  by (simp add: marker_triple_def marker_inside_line_def plain_text_lines ours_marker_def)

lemma midline_text_lines:
  "lines_of midline_text
     = [''x<<<<<<< HEAD'', ''foo'', ''======='', ''bar'', ''>>>>>>> branch'', []]"
  by (simp add: midline_text_def NL_def first_line_cons_def)

lemma midline_no_triple: "\<not> marker_triple midline_text"
  by (simp add: marker_triple_def midline_text_lines ours_marker_def)

lemma midline_inside_line: "marker_inside_line midline_text"
  by (simp add: marker_inside_line_def midline_text_lines ours_marker_def)

lemma resolve_midline_file:
  "files w ''f'' = Some (File midline_text) \<Longrightarrow>
   resolveConflictsInFile env_baz ''f'' w
     = (Inr (), w\<lparr>requests := Suc (requests w),
                  files := (files w)(''f'' \<mapsto> File midline_resolved),
                  writes := writes w @ [(''f'', midline_resolved)]\<rparr>)"
  by (simp add: resolveConflictsInFile_def midline_parse getGeminiResolution_first
      env_baz_def extract_text_answer trim_baz)
     (simp add: splice_def midline_text_def midline_region_def midline_resolved_def)

text \<open>
  Claim C1, as amended. When the content of a file holds no conflict-marker triple,
  and no ours marker inside a line that does not start with one, the scan returns no
  match and \<^verbatim>\<open>resolveConflictsInFile\<close> returns without a write and without a
  request: the world is as it was. The loop of \<^verbatim>\<open>main\<close> then calls \<^verbatim>\<open>git add\<close> for
  the file all the same, and goes on when the command succeeds.
\<close>

theorem no_conflict_no_write:
  assumes "\<not> marker_triple content" and "\<not> marker_inside_line content"
    and "files w file = Some (File content)"
  shows "matchAll content = [] \<and>
         resolveConflictsInFile e file w = (Inr (), w) \<and>
         resolve_paths e (file # rest) flag w =
           (if git_add_ok e file
            then resolve_paths e rest flag (w\<lparr>stage_calls := stage_calls w @ [file]\<rparr>)
            else (Inl (Thrown (COMMAND_FAILED file)),
                  w\<lparr>stage_calls := stage_calls w @ [file]\<rparr>))"
proof -
  from assms(1,2) have m: "matchAll content = []" using match_needs_triple by blast
  from resolve_unmatched_file [OF assms(3) m]
  have r: "resolveConflictsInFile e file w = (Inr (), w)" .
  from m r assms(3) show ?thesis by (simp add: Let_def)
qed

theorem no_conflict_no_write_witness:
  "\<not> marker_triple plain_text \<and> \<not> marker_inside_line plain_text \<and>
   files world_plain ''f'' = Some (File plain_text) \<and>
   resolveConflictsInFile env_baz ''f'' world_plain = (Inr (), world_plain) \<and>
   resolve_paths env_baz (''f'' # []) False world_plain
     = (Inr False, world_plain\<lparr>stage_calls := [''f'']\<rparr>)"
proof -
  from plain_text_no_triple
  have 1: "\<not> marker_triple plain_text" and 2: "\<not> marker_inside_line plain_text"
    by simp_all
  have 3: "files world_plain ''f'' = Some (File plain_text)"
    by (simp add: world_plain_def world0_def)
  from no_conflict_no_write [OF 1 2 3, of env_baz "[]" False] 1 2 3 git_add_ok_env_baz
  show ?thesis by (simp add: world_plain_def world0_def)
qed

text \<open>
  Claim C1 as stated fails twice. A file that holds no conflict-marker triple is
  staged: the run on the one file \<open>f\<close> with the content \<open>abc\<close> calls \<^verbatim>\<open>git add f\<close>
  and exits with 0. And a text without a triple can have a match: in \<open>midline_text\<close>
  no line starts with the ours marker, the scan finds the conflict after the \<open>x\<close> of
  the first line all the same, and the run asks the service, writes the file and stages
  it.
\<close>

theorem zero_conflicts_staged:
  "\<not> marker_triple plain_text \<and>
   matchAll plain_text = [] \<and>
   main env_baz [''f''] world_plain = (0, world_plain\<lparr>stage_calls := [''f'']\<rparr>) \<and>
   \<not> marker_triple midline_text \<and>
   matchAll midline_text = [midline_region] \<and>
   main env_baz [''f''] world_midline
     = (0, world_midline
          \<lparr>files := (files world_midline)(''f'' \<mapsto> File midline_resolved),
           requests := 1,
           writes := [(''f'', midline_resolved)],
           stage_calls := [''f'']\<rparr>)"
proof -
  have f: "files world_plain ''f'' = Some (File plain_text)"
    by (simp add: world_plain_def world0_def)
  have k: "GEMINI_API_KEY env_baz = Some ''key''" by (simp add: env_baz_def)
  have 1: "main env_baz [''f''] world_plain = (0, world_plain\<lparr>stage_calls := [''f'']\<rparr>)"
    using resolve_unmatched_file [OF f plain_text_parse, of env_baz] f k git_add_ok_env_baz
    by (simp add: main_def Let_def) (simp add: world_plain_def world0_def)
  have g: "files world_midline ''f'' = Some (File midline_text)"
    by (simp add: world_midline_def world0_def)
  have 2: "main env_baz [''f''] world_midline
     = (0, world_midline
          \<lparr>files := (files world_midline)(''f'' \<mapsto> File midline_resolved),
           requests := 1,
           writes := [(''f'', midline_resolved)],
           stage_calls := [''f'']\<rparr>)"
    using resolve_midline_file [OF g] g k git_add_ok_env_baz
    by (simp add: main_def Let_def) (simp add: world_midline_def world0_def)
  from 1 2 plain_text_parse plain_text_no_triple midline_no_triple midline_parse
  show ?thesis by simp
qed

text \<open>
  Claim C4 at a conflict whose first variant is empty, as \<^verbatim>\<open>git\<close> writes it: the line
  of \<^verbatim>\<open><<<<<<< HEAD\<close> is followed at once by the line \<^verbatim>\<open>=======\<close>. The scan finds no
  match, since the line feed before the separator is the one that ends the first marker
  line; the run stages the file with its markers and exits with 0. A conflict whose
  second variant is empty is not matched either.
\<close>

theorem empty_variant_not_parsed:
  "matchAll empty_ours_text = [] \<and>
   matchAll empty_theirs_text = [] \<and>
   main env_baz [''f''] world_empty_ours = (0, world_empty_ours\<lparr>stage_calls := [''f'']\<rparr>)"
proof -
  have f: "files world_empty_ours ''f'' = Some (File empty_ours_text)"
    by (simp add: world_empty_ours_def world0_def)
  have k: "GEMINI_API_KEY env_baz = Some ''key''" by (simp add: env_baz_def)
  have "main env_baz [''f''] world_empty_ours
        = (0, world_empty_ours\<lparr>stage_calls := [''f'']\<rparr>)"
    using resolve_unmatched_file [OF f empty_ours_parse, of env_baz] f k git_add_ok_env_baz
    by (simp add: main_def Let_def) (simp add: world_empty_ours_def world0_def)
  with empty_ours_parse empty_theirs_parse show ?thesis by simp
qed

subsection \<open>The loop and the oracle\<close>

lemma resolve_with_step:
  "matchAll content = ms @ [m] \<Longrightarrow>
   resolve_with content (r # rs)
   = foldl (\<lambda>buffer (m, r). splice buffer m r) (splice content m r) (zip (rev ms) rs)"
  by (simp add: resolve_with_def)

lemma reparse_oracle_step:
  "matchAll content = ms @ [m] \<Longrightarrow>
   reparse_oracle content (r # rs) = reparse_oracle (splice content m r) rs"
proof -
  assume ms: "matchAll content = ms @ [m]"
  then have ne: "matchAll content \<noteq> []" by simp
  have "reparse_oracle content (r # rs)
        = reparse_oracle (splice content (last (matchAll content)) r) rs"
    using ne by (cases "matchAll content") (simp_all del: last.simps)
  then show ?thesis by (simp add: ms)
qed

lemma two_conflicts_snoc: "matchAll two_conflicts = [region_one] @ [region_two]"
  by (simp add: two_conflicts_parse)

lemma x_y_result:
  "splice (splice two_conflicts region_two ''a < b'') region_one ''x''
   = ''x'' @ [NL] @ ''a < b'' @ [NL]"
  by (simp add: splice_def two_conflicts_def region_two_def region_one_def)

lemma nested_parse:
  "matchAll (splice two_conflicts region_two nested_conflict) = [region_one] @ [nested_region]"
  by (simp add: matchAll_def exec_at_def ours_marker_def separator_def
      theirs_marker_def NL_def Let_def nested_conflict_def region_one_def splice_def
      two_conflicts_def region_two_def nested_region_def)

lemma p_nested_result:
  "splice (splice two_conflicts region_two nested_conflict) region_one ''p''
   = ''p'' @ [NL] @ nested_conflict @ [NL]"
  by (simp add: splice_def two_conflicts_def region_two_def region_one_def nested_conflict_def)

lemma one_p_result:
  "splice (splice two_conflicts region_two nested_conflict) nested_region ''p''
   = fullConflictBlock region_one @ [NL] @ ''p'' @ [NL]"
  by (simp add: splice_def two_conflicts_def region_two_def region_one_def nested_conflict_def
      nested_region_def)

text \<open>
  Claim C2, as amended. When no resolved text holds the marker \<^verbatim>\<open><<<<<<<\<close>, the buffer of
  the loop, which splices in descending order of \<^verbatim>\<open>match.index\<close> with the offsets of the
  one scan, is the text of the oracle that scans again after each splice. Whatever the
  resolved texts are, after \<open>j\<close> splices the buffer is unchanged up to the end of each
  match not yet processed, so the offsets of these matches are still right. The buffer
  that \<^verbatim>\<open>resolve_matches\<close> returns is \<open>resolve_with\<close> of the texts the calls gave.
\<close>

theorem descending_splices_and_oracle:
  "(length rs = length (matchAll content)
      \<and> list_all (\<lambda>r. first_occurrence ours_marker r = None) rs \<longrightarrow>
      resolve_with content rs = reparse_oracle content rs)
   \<and> (m' \<in> set (take (length (matchAll content) - j) (matchAll content)) \<longrightarrow>
        take (index m' + length (fullConflictBlock m'))
          (foldl (\<lambda>buffer (m, r). splice buffer m r) content
             (take j (zip (rev (matchAll content)) rs')))
        = take (index m' + length (fullConflictBlock m')) content)
   \<and> (resolve_matches e f (rev (matchAll content)) content w = (Inr c', w') \<longrightarrow>
        (\<exists>rs. length rs = length (matchAll content) \<and> c' = resolve_with content rs))"
proof -
  have c: "\<exists>rs. length rs = length (matchAll content) \<and> c' = resolve_with content rs"
    if "resolve_matches e f (rev (matchAll content)) content w = (Inr c', w')"
    using resolve_matches_texts [OF that] by (simp add: resolve_with_def)
  from resolve_with_oracle [of rs content] unprocessed_prefix [of m' content j rs'] c
  show ?thesis by blast
qed

theorem descending_splices_and_oracle_witness:
  "length [''a < b'', ''x''] = length (matchAll two_conflicts) \<and>
   list_all (\<lambda>r. first_occurrence ours_marker r = None) [''a < b'', ''x''] \<and>
   resolve_with two_conflicts [''a < b'', ''x''] = ''x'' @ [NL] @ ''a < b'' @ [NL] \<and>
   reparse_oracle two_conflicts [''a < b'', ''x''] = ''x'' @ [NL] @ ''a < b'' @ [NL] \<and>
   region_one \<in> set (take (length (matchAll two_conflicts) - 1) (matchAll two_conflicts)) \<and>
   take (index region_one + length (fullConflictBlock region_one))
     (splice two_conflicts region_two nested_conflict)
   = take (index region_one + length (fullConflictBlock region_one)) two_conflicts \<and>
   resolve_matches env_baz ''f'' (rev (matchAll two_conflicts)) two_conflicts world0
   = (Inr (resolve_with two_conflicts [''baz'', ''baz'']), world0\<lparr>requests := 2\<rparr>)"
proof -
  have 1: "length [''a < b'', ''x''] = length (matchAll two_conflicts)"
    by (simp add: two_conflicts_parse)
  have 2: "list_all (\<lambda>r. first_occurrence ours_marker r = None) [''a < b'', ''x'']"
    by (simp add: ours_marker_def)
  have "resolve_with two_conflicts [''a < b'', ''x'']
        = splice (splice two_conflicts region_two ''a < b'') region_one ''x''"
    by (simp add: resolve_with_step [OF two_conflicts_snoc])
  then have 3: "resolve_with two_conflicts [''a < b'', ''x''] = ''x'' @ [NL] @ ''a < b'' @ [NL]"
    by (simp only: x_y_result)
  have 4: "region_one \<in> set (take (length (matchAll two_conflicts) - 1) (matchAll two_conflicts))"
    by (simp add: two_conflicts_parse)
  have 5: "foldl (\<lambda>buffer (m, r). splice buffer m r) two_conflicts
             (take 1 (zip (rev (matchAll two_conflicts)) [nested_conflict, ''p'']))
           = splice two_conflicts region_two nested_conflict"
    by (simp add: two_conflicts_parse)
  have 7: "resolve_matches env_baz ''f'' (rev (matchAll two_conflicts)) two_conflicts world0
           = (Inr (resolve_with two_conflicts [''baz'', ''baz'']), world0\<lparr>requests := 2\<rparr>)"
    by (simp add: two_conflicts_parse resolve_with_def getGeminiResolution_first env_baz_def
        extract_text_answer trim_baz world0_def)
  from descending_splices_and_oracle [of "[''a < b'', ''x'']" two_conflicts region_one 1
      "[nested_conflict, ''p'']" env_baz "''f''" world0
      "resolve_with two_conflicts [''baz'', ''baz'']" "world0\<lparr>requests := 2\<rparr>"]
    1 2 3 4 5 7
  show ?thesis by simp
qed

text \<open>
  Claim C2 as stated fails for a resolved text that is itself a conflict block: the
  loop replaces the first conflict of the file by \<open>p\<close>, the oracle finds the new block
  in its second scan and replaces that one.
\<close>

theorem oracle_differs:
  "resolve_with two_conflicts [nested_conflict, ''p'']
     = ''p'' @ [NL] @ nested_conflict @ [NL] \<and>
   reparse_oracle two_conflicts [nested_conflict, ''p'']
     = fullConflictBlock region_one @ [NL] @ ''p'' @ [NL] \<and>
   resolve_with two_conflicts [nested_conflict, ''p'']
     \<noteq> reparse_oracle two_conflicts [nested_conflict, ''p'']"
proof -
  have "resolve_with two_conflicts [nested_conflict, ''p'']
        = splice (splice two_conflicts region_two nested_conflict) region_one ''p''"
    by (simp add: resolve_with_step [OF two_conflicts_snoc])
  then have 1: "resolve_with two_conflicts [nested_conflict, ''p'']
     = ''p'' @ [NL] @ nested_conflict @ [NL]"
    by (simp only: p_nested_result)
  have "reparse_oracle two_conflicts [nested_conflict, ''p'']
        = reparse_oracle (splice two_conflicts region_two nested_conflict) [''p'']"
    by (rule reparse_oracle_step [OF two_conflicts_snoc])
  also have "\<dots> = reparse_oracle
        (splice (splice two_conflicts region_two nested_conflict) nested_region ''p'') []"
    by (rule reparse_oracle_step [OF nested_parse])
  also have "\<dots> = fullConflictBlock region_one @ [NL] @ ''p'' @ [NL]"
    by (simp only: reparse_oracle.simps one_p_result)
  finally have 2: "reparse_oracle two_conflicts [nested_conflict, ''p'']
     = fullConflictBlock region_one @ [NL] @ ''p'' @ [NL]" .
  have 3: "''p'' @ [NL] @ nested_conflict @ [NL]
           \<noteq> fullConflictBlock region_one @ [NL] @ ''p'' @ [NL]"
    by (simp add: region_one_def)
  from 1 2 3 show ?thesis by (simp only: simp_thms)
qed

subsection \<open>Where a match starts\<close>

text \<open>
  Claim C9, as amended. A match starts where the marker \<^verbatim>\<open><<<<<<<\<close> stands in the
  content, at whatever offset of its line: from \<^verbatim>\<open>match.index\<close> on, the content is the
  marker, a label, a line feed, \<^verbatim>\<open>ourCode\<close>, the separator, \<^verbatim>\<open>theirCode\<close>, the closing
  marker and its label. The labels belong to neither variant, and with any other labels
  without a line feed in their place the attempt at the marker succeeds with the same
  two variants.
\<close>

theorem region_at_marker_occurrence:
  assumes "m \<in> set (matchAll content)"
  shows "\<exists>label label2 rest.
           drop (index m) content
             = ours_marker @ label @ [NL] @ ourCode m @ separator @ theirCode m
               @ theirs_marker @ label2 @ rest
         \<and> fullConflictBlock m
             = ours_marker @ label @ [NL] @ ourCode m @ separator @ theirCode m
               @ theirs_marker @ label2
         \<and> index m + length (fullConflictBlock m) \<le> length content
         \<and> NL \<notin> set label \<and> NL \<notin> set label2
         \<and> (\<forall>l l2. NL \<notin> set l \<and> NL \<notin> set l2 \<longrightarrow>
              exec_at (ours_marker @ l @ [NL] @ ourCode m @ separator @ theirCode m
                       @ theirs_marker @ l2 @ rest)
              = Some (length (ours_marker @ l @ [NL] @ ourCode m @ separator @ theirCode m
                              @ theirs_marker @ l2),
                      ourCode m, theirCode m))"
proof -
  let ?g1 = "ourCode m" and ?g2 = "theirCode m"
  let ?d = "drop (index m) content"
  from assms have "m \<in> set (scan 0 content)" by (simp add: matchAll_def)
  from scan_member [OF this]
  have le: "index m + length (fullConflictBlock m) \<le> length content"
    and e: "exec_at ?d = Some (length (fullConflictBlock m), ?g1, ?g2)"
    and b: "fullConflictBlock m = take (length (fullConflictBlock m)) ?d"
    by simp_all
  from exec_at_shaped [OF e] obtain label label2 rest where
    d: "?d = ours_marker @ label @ [NL] @ ?g1 @ separator @ ?g2 @ theirs_marker @ label2 @ rest"
    and len: "length (fullConflictBlock m)
              = length (ours_marker @ label @ [NL] @ ?g1 @ separator @ ?g2 @ theirs_marker @ label2)"
    and sh: "matched_shape label ?g1 ?g2 label2 rest"
    by blast
  let ?M = "ours_marker @ label @ [NL] @ ?g1 @ separator @ ?g2 @ theirs_marker @ label2"
  from d have "?d = ?M @ rest" by simp
  with len have "take (length (fullConflictBlock m)) ?d = ?M"
    by (metis append_eq_conv_conj)
  with b have full: "fullConflictBlock m = ?M" by simp
  from sh have l: "NL \<notin> set label" "NL \<notin> set label2" by (simp_all add: matched_shape_def)
  have any: "exec_at (ours_marker @ l @ [NL] @ ?g1 @ separator @ ?g2 @ theirs_marker @ l2 @ rest)
              = Some (length (ours_marker @ l @ [NL] @ ?g1 @ separator @ ?g2 @ theirs_marker @ l2),
                      ?g1, ?g2)"
    if "NL \<notin> set l \<and> NL \<notin> set l2" for l l2
  proof -
    from sh that have "matched_shape l ?g1 ?g2 l2 rest" by (simp add: matched_shape_def)
    then show ?thesis by (rule exec_at_shape)
  qed
  from d full le l any show ?thesis by blast
qed

theorem region_at_marker_occurrence_witness:
  "midline_region \<in> set (matchAll midline_text) \<and>
   (\<exists>label label2 rest.
           drop (index midline_region) midline_text
             = ours_marker @ label @ [NL] @ ourCode midline_region @ separator
               @ theirCode midline_region @ theirs_marker @ label2 @ rest
         \<and> fullConflictBlock midline_region
             = ours_marker @ label @ [NL] @ ourCode midline_region @ separator
               @ theirCode midline_region @ theirs_marker @ label2
         \<and> exec_at (ours_marker @ '' mine'' @ [NL] @ ourCode midline_region @ separator
                       @ theirCode midline_region @ theirs_marker @ '' other'' @ rest)
              = Some (length (ours_marker @ '' mine'' @ [NL] @ ourCode midline_region
                        @ separator @ theirCode midline_region @ theirs_marker @ '' other''),
                      ourCode midline_region, theirCode midline_region))"
proof -
  have mem: "midline_region \<in> set (matchAll midline_text)"
    by (simp add: matchAll_def exec_at_def ours_marker_def separator_def
      theirs_marker_def NL_def Let_def midline_text_def midline_region_def)
  have n: "NL \<notin> set '' mine'' \<and> NL \<notin> set '' other''" by (simp add: NL_def)
  from region_at_marker_occurrence [OF mem] n mem show ?thesis by blast
qed

text \<open>
  Claim C9 as stated fails: the match of \<open>midline_text\<close> starts at offset 1, after the
  character \<open>x\<close> of the same line.
\<close>

theorem region_inside_a_line:
  "matchAll midline_text = [midline_region] \<and>
   index midline_region = 1 \<and>
   midline_text ! (index midline_region - 1) = CHR ''x'' \<and>
   CHR ''x'' \<noteq> NL"
  by (simp add: matchAll_def exec_at_def ours_marker_def separator_def
      theirs_marker_def NL_def Let_def midline_text_def midline_region_def)

end
